theory Spec2Isabelle
  imports Main "HOL-Library.Signed_Division"
begin

section \<open>The data of the solver\<close>

text \<open>
  The solver of \<^verbatim>\<open>SudokuSolverWithHardestEver.cpp\<close> (the diagnostic variant) is embedded
  function by function.  \<^verbatim>\<open>Simplified.cpp\<close> is the same code with every \<^verbatim>\<open>throw\<close> and
  every \<^verbatim>\<open>checkPair\<close> removed, so it agrees with this model on every run that raises
  no error.

  A C++ \<^verbatim>\<open>int\<close> is modelled as a mathematical integer: the only arithmetic of the solver
  is \<^verbatim>\<open>+ 1\<close> on digits and cursors bounded by the grid size, and a division, so no
  value comes near the 32-bit bound.  The division \<^verbatim>\<open>/\<close> and the remainder \<^verbatim>\<open>%\<close> of C++
  truncate towards zero: they are \<open>sdiv\<close> and \<open>smod\<close>.  A \<^verbatim>\<open>std::vector\<close> is a list, the
  \<^verbatim>\<open>std::unordered_map\<close> from digits to coordinate vectors, which \<^verbatim>\<open>operator[]\<close> extends with
  an empty vector at a missing key, is a total function whose default is the empty list.
\<close>

type_synonym coord = "int \<times> int"
type_synonym intgrid = "int list list"
type_synonym occurrence = "int \<Rightarrow> coord list"

record stackData =
  coordinates :: coord
  choices :: "int list"
  index :: int
  revisited :: bool

text \<open>Every \<^verbatim>\<open>throw std::runtime_error\<close> of the search engine, in the order of the source.\<close>

datatype error =
    PushNoBlanks
  | PushNoChoices
  | PopEmptyStack
  | PopNoChoices
  | PopNotRecorded
  | IncrEmptyStack
  | IncrAtHighest
  | IncrNotRecorded

text \<open>\<^verbatim>\<open>grid[i][j]\<close> read and written.  Out of range the C++ is undefined; the callers
  below guard the access as the source does.\<close>

definition cell :: "intgrid \<Rightarrow> coord \<Rightarrow> int" where
  "cell g c = g ! nat (fst c) ! nat (snd c)"

definition put :: "intgrid \<Rightarrow> coord \<Rightarrow> int \<Rightarrow> intgrid" where
  "put g c v = g[nat (fst c) := (g ! nat (fst c))[nat (snd c) := v]]"

section \<open>The validator\<close>

text \<open>The body of the outer loop of \<^verbatim>\<open>checkFormat\<close> for one row.\<close>

definition checkRow :: "int list \<Rightarrow> int \<Rightarrow> bool" where
  "checkRow row gridSize =
     (if int (length row) \<noteq> gridSize then False
      else list_all (\<lambda>v. \<not> (v < 0 \<or> v > gridSize)) row)"

definition checkFormat :: "intgrid \<Rightarrow> int \<Rightarrow> bool" where
  "checkFormat g gridSize =
     (if int (length g) \<noteq> gridSize then False
      else list_all (\<lambda>row. checkRow row gridSize) g)"

definition checkIndex :: "int \<Rightarrow> intgrid \<Rightarrow> bool" where
  "checkIndex i g = (if i < 0 \<or> i \<ge> int (length g) then False else True)"

definition checkPair :: "coord \<Rightarrow> intgrid \<Rightarrow> bool" where
  "checkPair coordinate g = (checkIndex (fst coordinate) g \<and> checkIndex (snd coordinate) g)"

definition checkHorizontal :: "int \<Rightarrow> int \<Rightarrow> intgrid \<Rightarrow> bool" where
  "checkHorizontal i j g =
     (if \<not> checkPair (i, j) g then False
      else if cell g (i, j) \<noteq> 0
        then list_all (\<lambda>J. \<not> (j \<noteq> J \<and> cell g (i, J) = cell g (i, j))) (map int [0..<length g])
        else True)"

definition checkVertical :: "int \<Rightarrow> int \<Rightarrow> intgrid \<Rightarrow> bool" where
  "checkVertical i j g =
     (if \<not> checkPair (i, j) g then False
      else if cell g (i, j) \<noteq> 0
        then list_all (\<lambda>I. \<not> (i \<noteq> I \<and> cell g (i, j) = cell g (I, j))) (map int [0..<length g])
        else True)"

definition checkSubgrid :: "int \<Rightarrow> int \<Rightarrow> intgrid \<Rightarrow> int \<Rightarrow> bool" where
  "checkSubgrid i j g subgridSize =
     (if \<not> checkPair (i, j) g then False
      else let startI = i - i smod subgridSize; endI = startI + subgridSize;
               startJ = j - j smod subgridSize; endJ = startJ + subgridSize
        in if cell g (i, j) \<noteq> 0
          then list_all (\<lambda>I. list_all (\<lambda>J. \<not> (i \<noteq> I \<and> j \<noteq> J \<and> cell g (i, j) = cell g (I, J)))
                 [startJ..endJ - 1]) [startI..endI - 1]
          else True)"

definition checkLegalAt :: "int \<Rightarrow> int \<Rightarrow> intgrid \<Rightarrow> int \<Rightarrow> bool" where
  "checkLegalAt i j g subgridSize =
     (checkHorizontal i j g \<and> checkVertical i j g \<and> checkSubgrid i j g subgridSize)"

definition checkLegal :: "intgrid \<Rightarrow> int \<Rightarrow> bool" where
  "checkLegal g subgridSize =
     list_all (\<lambda>i. list_all (\<lambda>j. checkLegalAt i j g subgridSize) (map int [0..<length g]))
       (map int [0..<length g])"

definition checkUserGrid :: "intgrid \<Rightarrow> int \<Rightarrow> int \<Rightarrow> bool" where
  "checkUserGrid g gridSize subgridSize = (checkFormat g gridSize \<and> checkLegal g subgridSize)"

section \<open>The consistency check\<close>

definition sameSubgrid :: "coord \<Rightarrow> coord \<Rightarrow> int \<Rightarrow> bool" where
  "sameSubgrid lhs rhs subgridSize =
     (fst lhs sdiv subgridSize = fst rhs sdiv subgridSize
      \<and> snd lhs sdiv subgridSize = snd rhs sdiv subgridSize)"

definition consistent :: "coord \<Rightarrow> coord \<Rightarrow> int \<Rightarrow> bool" where
  "consistent lhs rhs subgridSize =
     (lhs = rhs \<or> (fst lhs \<noteq> fst rhs \<and> snd lhs \<noteq> snd rhs \<and> \<not> sameSubgrid lhs rhs subgridSize))"

text \<open>The loop of the second overload of \<^verbatim>\<open>consistent\<close> over the vector \<^verbatim>\<open>record[digit]\<close>,
  leaving at the first inconsistent coordinate.\<close>

fun consistentColumn :: "coord \<Rightarrow> coord list \<Rightarrow> int \<Rightarrow> bool" where
  "consistentColumn location [] subgridSize = True"
| "consistentColumn location (c # column) subgridSize =
     (if \<not> consistent location c subgridSize then False
      else consistentColumn location column subgridSize)"

text \<open>The second overload of \<^verbatim>\<open>consistent\<close>; its \<^verbatim>\<open>grid\<close> parameter is never read and is
  left out.\<close>

definition consistentDigit :: "int \<Rightarrow> coord \<Rightarrow> occurrence \<Rightarrow> int \<Rightarrow> bool" where
  "consistentDigit digit location occ subgridSize =
     consistentColumn location (occ digit) subgridSize"

section \<open>Blanks, occurrences, options and the selector\<close>

text \<open>Row-major enumeration of the cells, as the two nested loops of \<^verbatim>\<open>blankSquares\<close> and
  \<^verbatim>\<open>occurrences\<close> visit them.\<close>

definition cellsOf :: "intgrid \<Rightarrow> (coord \<times> int) list" where
  "cellsOf g =
     concat (map (\<lambda>i. map (\<lambda>j. ((int i, int j), g ! i ! j)) [0..<length (g ! i)]) [0..<length g])"

definition blankSquares :: "intgrid \<Rightarrow> coord list" where
  "blankSquares g = map fst (filter (\<lambda>(c, v). v = 0) (cellsOf g))"

definition occurrences :: "intgrid \<Rightarrow> occurrence" where
  "occurrences g =
     foldl (\<lambda>result (c, v). if v \<noteq> 0 then result(v := result v @ [c]) else result)
       (\<lambda>d. []) (cellsOf g)"

text \<open>The digit loop of \<^verbatim>\<open>options\<close>: the cell is overwritten with each attempted digit and
  read back.\<close>

fun optionsLoop :: "coord \<Rightarrow> occurrence \<Rightarrow> int \<Rightarrow> int list \<Rightarrow> intgrid \<Rightarrow> int list
    \<Rightarrow> intgrid \<times> int list" where
  "optionsLoop location occ subgridSize [] g result = (g, result)"
| "optionsLoop location occ subgridSize (attemptDigit # rest) g result =
     (let g' = put g location (attemptDigit + 1); val = cell g' location
      in optionsLoop location occ subgridSize rest g'
           (if consistentDigit val location occ subgridSize then result @ [val] else result))"

definition options :: "coord \<Rightarrow> intgrid \<Rightarrow> occurrence \<Rightarrow> int \<Rightarrow> int list \<times> intgrid" where
  "options location g occ subgridSize =
     (if checkPair location g
      then (case optionsLoop location occ subgridSize (map int [0..<length g]) g [] of
              (g', result) \<Rightarrow> (result, put g' location 0))
      else ([], g))"

text \<open>The inner loop of \<^verbatim>\<open>min\<close>: it stops counting once the count reaches the threshold.\<close>

fun countSuccessful :: "coord \<Rightarrow> occurrence \<Rightarrow> int \<Rightarrow> int \<Rightarrow> int list \<Rightarrow> int \<Rightarrow> int" where
  "countSuccessful location occ subgridSize threshold [] successfulDigits = successfulDigits"
| "countSuccessful location occ subgridSize threshold (attemptedDigit # rest) successfulDigits =
     (if successfulDigits < threshold
      then countSuccessful location occ subgridSize threshold rest
             (if consistentDigit attemptedDigit location occ subgridSize
              then successfulDigits + 1 else successfulDigits)
      else successfulDigits)"

text \<open>The \<^verbatim>\<open>else\<close> branch of the loop of \<^verbatim>\<open>min\<close>, over the blanks after the first.  The
  list iterators \<^verbatim>\<open>iter\<close> and \<^verbatim>\<open>currentMin\<close> are positions in the list of blanks.\<close>

fun minScan :: "intgrid \<Rightarrow> occurrence \<Rightarrow> int \<Rightarrow> coord list \<Rightarrow> nat \<Rightarrow> int \<Rightarrow> nat
    \<Rightarrow> nat \<times> int" where
  "minScan g occ subgridSize [] iter threshold currentMin = (currentMin, threshold)"
| "minScan g occ subgridSize (b # rest) iter threshold currentMin =
     (if threshold = 0 then (currentMin, threshold)
      else let successfulDigits =
                 countSuccessful b occ subgridSize threshold (map int [1..<length g + 1]) 0
        in if successfulDigits < threshold
           then minScan g occ subgridSize rest (iter + 1) successfulDigits iter
           else minScan g occ subgridSize rest (iter + 1) threshold currentMin)"

text \<open>\<^verbatim>\<open>min\<close>: the position of the chosen blank, the flag \<^verbatim>\<open>nonEmpty\<close> and the grid, which
  \<^verbatim>\<open>options\<close> has written to.  On an empty list the threshold stays \<open>-1\<close>, the flag is
  true and the iterator is \<^verbatim>\<open>end()\<close>.\<close>

definition minBlank :: "intgrid \<Rightarrow> coord list \<Rightarrow> occurrence \<Rightarrow> int \<Rightarrow> nat \<times> bool \<times> intgrid" where
  "minBlank g blanks occ subgridSize =
     (case blanks of
        [] \<Rightarrow> (0, True, g)
      | b # rest \<Rightarrow>
          (case options b g occ subgridSize of
             (opts, g') \<Rightarrow>
               (case minScan g' occ subgridSize rest 1 (int (length opts)) 0 of
                  (currentMin, threshold) \<Rightarrow> (currentMin, threshold \<noteq> 0, g'))))"

section \<open>The search engine\<close>

record solver =
  blankStack :: "stackData list"
  blanksInProcess :: "coord list"
  recordsEachDigit :: occurrence
  grid :: intgrid

text \<open>The stack is a list whose head is the top.\<close>

definition push :: "int \<Rightarrow> solver \<Rightarrow> error + (bool \<times> solver)" where
  "push subgridSize s =
     (if blanksInProcess s = [] then Inl PushNoBlanks
      else case minBlank (grid s) (blanksInProcess s) (recordsEachDigit s) subgridSize of
        (easiest, nonEmptyIndicator, g1) \<Rightarrow>
          if \<not> nonEmptyIndicator then Inr (False, s\<lparr>grid := g1\<rparr>)
          else let location = blanksInProcess s ! easiest
            in case options location g1 (recordsEachDigit s) subgridSize of
              (chs, g2) \<Rightarrow>
                if chs = [] then Inl PushNoChoices
                else Inr (True,
                  \<lparr>blankStack = \<lparr>coordinates = location, choices = chs, index = 0,
                                  revisited = False\<rparr> # blankStack s,
                   blanksInProcess =
                     take easiest (blanksInProcess s) @ drop (Suc easiest) (blanksInProcess s),
                   recordsEachDigit =
                     (recordsEachDigit s)(chs ! 0 := recordsEachDigit s (chs ! 0) @ [location]),
                   grid = put g2 location (chs ! 0)\<rparr>))"

definition pop :: "solver \<Rightarrow> error + solver" where
  "pop s =
     (case blankStack s of
        [] \<Rightarrow> Inl PopEmptyStack
      | topFrame # rest \<Rightarrow>
          if choices topFrame = [] then Inl PopNoChoices
          else let column = recordsEachDigit s (last (choices topFrame))
            in if coordinates topFrame \<notin> set column then Inl PopNotRecorded
               else Inr
                 \<lparr>blankStack = (case rest of [] \<Rightarrow> [] | t # r \<Rightarrow> t\<lparr>revisited := True\<rparr> # r),
                  blanksInProcess = blanksInProcess s @ [coordinates topFrame],
                  recordsEachDigit =
                    (recordsEachDigit s)(last (choices topFrame) := remove1 (coordinates topFrame) column),
                  grid = put (grid s) (coordinates topFrame) 0\<rparr>)"

definition tryToPush :: "int \<Rightarrow> solver \<Rightarrow> error + solver" where
  "tryToPush subgridSize s =
     (case push subgridSize s of
        Inl e \<Rightarrow> Inl e
      | Inr (pushed, s') \<Rightarrow> if \<not> pushed then pop s' else Inr s')"

text \<open>The comparison \<^verbatim>\<open>index + 1 < choices.size()\<close> is made on unsigned values: a negative
  left side counts as large.\<close>

definition belowLast :: "stackData \<Rightarrow> bool" where
  "belowLast topFrame = (0 \<le> index topFrame + 1 \<and> index topFrame + 1 < int (length (choices topFrame)))"

text \<open>The first overload of \<^verbatim>\<open>increment\<close> (stack, record, grid).\<close>

definition increment :: "solver \<Rightarrow> error + solver" where
  "increment s =
     (case blankStack s of
        [] \<Rightarrow> Inl IncrEmptyStack
      | topFrame # rest \<Rightarrow>
          if \<not> belowLast topFrame then Inl IncrAtHighest
          else let location = coordinates topFrame;
                   digit = cell (grid s) location;
                   column = recordsEachDigit s digit
            in if location \<notin> set column then Inl IncrNotRecorded
               else let digit' = choices topFrame ! nat (index topFrame + 1);
                        erased = (recordsEachDigit s)(digit := remove1 location column)
                 in Inr
                   \<lparr>blankStack = topFrame\<lparr>index := index topFrame + 1\<rparr> # rest,
                    blanksInProcess = blanksInProcess s,
                    recordsEachDigit = erased(digit' := erased digit' @ [location]),
                    grid = put (grid s) location digit'\<rparr>)"

text \<open>The second overload of \<^verbatim>\<open>increment\<close>: increment, try to push, and push again when the
  stack has become empty.\<close>

definition incrementPush :: "int \<Rightarrow> solver \<Rightarrow> error + solver" where
  "incrementPush subgridSize s =
     (case increment s of
        Inl e \<Rightarrow> Inl e
      | Inr s1 \<Rightarrow>
          (case tryToPush subgridSize s1 of
             Inl e \<Rightarrow> Inl e
           | Inr s2 \<Rightarrow>
               if blankStack s2 = [] \<and> blanksInProcess s2 \<noteq> []
               then (case push subgridSize s2 of Inl e \<Rightarrow> Inl e | Inr (pushed, s3) \<Rightarrow> Inr s3)
               else Inr s2))"

text \<open>One pass through the body of the \<^verbatim>\<open>while\<close> loop of \<^verbatim>\<open>backtrack\<close>, after the test for
  a full stack.\<close>

definition iteration :: "int \<Rightarrow> solver \<Rightarrow> error + solver" where
  "iteration subgridSize s =
     (let topMember = hd (blankStack s)
      in if revisited topMember \<and> belowLast topMember then incrementPush subgridSize s
         else if \<not> revisited topMember then tryToPush subgridSize s
         else pop s)"

text \<open>The loop of \<^verbatim>\<open>backtrack\<close>.  A run that does not return is \<open>None\<close>; a run that throws
  is \<open>Some (Inl e)\<close>; a run that returns gives the returned vector (empty for "no
  solution") and the state at the return, whose \<open>grid\<close> is the caller's grid.\<close>

partial_function (option) backtrackLoop ::
    "int \<Rightarrow> nat \<Rightarrow> solver \<Rightarrow> (error + intgrid \<times> solver) option" where
  "backtrackLoop subgridSize fullStackSize s =
     (if blankStack s = [] then Some (Inr ([], s))
      else if length (blankStack s) = fullStackSize then Some (Inr (grid s, s))
      else case iteration subgridSize s of
             Inl e \<Rightarrow> Some (Inl e)
           | Inr s' \<Rightarrow> backtrackLoop subgridSize fullStackSize s')"

declare backtrackLoop.simps [code]

definition initial :: "intgrid \<Rightarrow> solver" where
  "initial g =
     \<lparr>blankStack = [], blanksInProcess = blankSquares g, recordsEachDigit = occurrences g,
      grid = g\<rparr>"

definition backtrack :: "int \<Rightarrow> intgrid \<Rightarrow> (error + intgrid \<times> solver) option" where
  "backtrack subgridSize g =
     (let s0 = initial g; fullStackSize = length (blanksInProcess s0)
      in if blanksInProcess s0 = [] then Some (Inr (g, s0))
         else case push subgridSize s0 of
                Inl e \<Rightarrow> Some (Inl e)
              | Inr (pushed, s1) \<Rightarrow> backtrackLoop subgridSize fullStackSize s1)"

section \<open>Specification vocabulary\<close>

text \<open>The coordinates of an \<open>n \<times> n\<close> grid, in row-major order.\<close>

definition coords :: "nat \<Rightarrow> coord list" where
  "coords n = concat (map (\<lambda>i. map (\<lambda>j. (int i, int j)) [0..<n]) [0..<n])"

definition inside :: "nat \<Rightarrow> coord \<Rightarrow> bool" where
  "inside n c = (0 \<le> fst c \<and> fst c < int n \<and> 0 \<le> snd c \<and> snd c < int n)"

definition square :: "nat \<Rightarrow> intgrid \<Rightarrow> bool" where
  "square n g = (length g = n \<and> (\<forall>row \<in> set g. length row = n))"

text \<open>Two coordinates of the grid are in one row, one column or one subregion; the
  subregion of a coordinate is the pair of the quotients of its row and its column by the
  subregion size.\<close>

definition sharesUnit :: "int \<Rightarrow> coord \<Rightarrow> coord \<Rightarrow> bool" where
  "sharesUnit sub c c' =
     (fst c = fst c' \<or> snd c = snd c'
      \<or> (fst c div sub = fst c' div sub \<and> snd c div sub = snd c' div sub))"

text \<open>No two distinct cells of one row, column or subregion hold the same digit.\<close>

definition conflictFree :: "int \<Rightarrow> intgrid \<Rightarrow> bool" where
  "conflictFree sub g =
     (\<forall>c \<in> set (coords (length g)). \<forall>c' \<in> set (coords (length g)).
        c \<noteq> c' \<and> cell g c \<noteq> 0 \<and> sharesUnit sub c c' \<longrightarrow> cell g c' \<noteq> cell g c)"

text \<open>A well-formed input: an \<open>N \<times> N\<close> grid with \<open>N\<close> the square of the subregion size,
  values from 0 to \<open>N\<close>, and no constraint violated.\<close>

definition wellFormed :: "int \<Rightarrow> intgrid \<Rightarrow> bool" where
  "wellFormed sub g =
     (0 < sub \<and> int (length g) = sub * sub
      \<and> (\<forall>row \<in> set g. length row = length g \<and> (\<forall>v \<in> set row. 0 \<le> v \<and> v \<le> int (length g)))
      \<and> conflictFree sub g)"

text \<open>A grid agrees with another on every cell the other has filled.\<close>

definition extends :: "intgrid \<Rightarrow> intgrid \<Rightarrow> bool" where
  "extends sol g =
     (\<forall>c \<in> set (coords (length g)). cell g c \<noteq> 0 \<longrightarrow> cell sol c = cell g c)"

definition filled :: "intgrid \<Rightarrow> bool" where
  "filled sol =
     (\<forall>c \<in> set (coords (length sol)). 1 \<le> cell sol c \<and> cell sol c \<le> int (length sol))"

text \<open>A completion of a grid: a filled grid of the same shape that keeps the given digits
  and violates no constraint.\<close>

definition completion :: "int \<Rightarrow> intgrid \<Rightarrow> intgrid \<Rightarrow> bool" where
  "completion sub g sol =
     (square (length g) sol \<and> filled sol \<and> extends sol g \<and> conflictFree sub sol)"

text \<open>The occurrence record and the grid say the same: a coordinate is recorded under a
  digit exactly when the grid holds the digit there.\<close>

definition coherent :: "intgrid \<Rightarrow> occurrence \<Rightarrow> bool" where
  "coherent g occ =
     (\<forall>d c. d \<noteq> 0 \<longrightarrow> (c \<in> set (occ d) \<longleftrightarrow> inside (length g) c \<and> cell g c = d))"

text \<open>The number of legal options of a coordinate: the digits from 1 to \<open>N\<close> that pass
  the consistency check.\<close>

definition optionCount :: "intgrid \<Rightarrow> occurrence \<Rightarrow> int \<Rightarrow> coord \<Rightarrow> nat" where
  "optionCount g occ sub b =
     length (filter (\<lambda>d. consistentDigit d b occ sub) (map int [1..<length g + 1]))"

section \<open>The invariant of the search\<close>

text \<open>The digit a frame has committed, and the grid that a stack of frames describes over
  the input grid.\<close>

definition cur :: "stackData \<Rightarrow> int" where
  "cur f = choices f ! nat (index f)"

fun gridOf :: "intgrid \<Rightarrow> stackData list \<Rightarrow> intgrid" where
  "gridOf g [] = g"
| "gridOf g (f # fs) = put (gridOf g fs) (coordinates f) (cur f)"

text \<open>A digit is legal at a coordinate of a grid when every cell that holds the digit is
  consistent with the coordinate; the legal digits in ascending order.\<close>

definition legal :: "int \<Rightarrow> intgrid \<Rightarrow> coord \<Rightarrow> int \<Rightarrow> bool" where
  "legal sub h c d =
     (\<forall>c' \<in> set (coords (length h)). cell h c' = d \<longrightarrow> consistent c c' sub)"

definition opts :: "int \<Rightarrow> intgrid \<Rightarrow> coord \<Rightarrow> int list" where
  "opts sub h c = filter (legal sub h c) (map int [1..<length h + 1])"

text \<open>Every frame sits on a cell that is blank in the grid below it, its choices are the
  legal digits there, its cursor is on one of them, and no blank of the grid below had
  fewer options.\<close>

fun framesOk :: "int \<Rightarrow> intgrid \<Rightarrow> stackData list \<Rightarrow> bool" where
  "framesOk sub g [] = True"
| "framesOk sub g (f # fs) =
     (framesOk sub g fs
      \<and> inside (length g) (coordinates f)
      \<and> cell (gridOf g fs) (coordinates f) = 0
      \<and> choices f = opts sub (gridOf g fs) (coordinates f)
      \<and> 0 \<le> index f \<and> index f < int (length (choices f))
      \<and> (\<forall>b \<in> set (coords (length g)). cell (gridOf g fs) b = 0
            \<longrightarrow> length (choices f) \<le> length (opts sub (gridOf g fs) b)))"

text \<open>What the search has excluded for a completion: below every frame, the choices
  before the cursor.\<close>

fun explored :: "intgrid \<Rightarrow> intgrid \<Rightarrow> stackData list \<Rightarrow> bool" where
  "explored g sol [] = True"
| "explored g sol (f # fs) =
     (explored g sol fs
      \<and> (extends sol (gridOf g fs)
           \<longrightarrow> cell sol (coordinates f) \<notin> set (take (nat (index f)) (choices f))))"

definition searched :: "int \<Rightarrow> intgrid \<Rightarrow> stackData list \<Rightarrow> bool" where
  "searched sub g fs =
     (\<forall>sol. completion sub g sol \<longrightarrow>
        explored g sol fs
        \<and> ((fs = [] \<or> revisited (hd fs)) \<longrightarrow> \<not> extends sol (gridOf g fs)))"

definition invariant :: "int \<Rightarrow> intgrid \<Rightarrow> solver \<Rightarrow> bool" where
  "invariant sub g s =
     (grid s = gridOf g (blankStack s)
      \<and> coherent (grid s) (recordsEachDigit s)
      \<and> (\<forall>d. distinct (recordsEachDigit s d))
      \<and> distinct (blanksInProcess s)
      \<and> set (blanksInProcess s) = {c \<in> set (coords (length g)). cell (grid s) c = 0}
      \<and> length (blankStack s) + length (blanksInProcess s) = length (blankSquares g)
      \<and> framesOk sub g (blankStack s))"

text \<open>The progress of the depth-first search as a number: the stack read from the bottom
  as the digits of a numeral of base \<open>B\<close>, a frame counting twice its cursor plus one, and
  the top frame one more once it is revisited.\<close>

fun valBelow :: "nat \<Rightarrow> nat \<Rightarrow> stackData list \<Rightarrow> nat" where
  "valBelow B D [] = 0"
| "valBelow B D (f # fs) = (2 * nat (index f) + 1) * B ^ (D - length fs) + valBelow B D fs"

fun valStack :: "nat \<Rightarrow> nat \<Rightarrow> stackData list \<Rightarrow> nat" where
  "valStack B D [] = 0"
| "valStack B D (f # fs) =
     (2 * nat (index f) + 1 + (if revisited f then 1 else 0)) * B ^ (D - length fs)
       + valBelow B D fs"

text \<open>The three ways one pass of the loop changes the stack: a push over a fresh top, an
  increment of a revisited top followed by a push, and a pop of a top whose cursor is on
  its last choice, either revisited or above a grid with a blank without options.\<close>

definition stackStep :: "int \<Rightarrow> intgrid \<Rightarrow> stackData list \<Rightarrow> stackData list \<Rightarrow> bool" where
  "stackStep sub g fs fs' =
     (\<exists>f rest. fs = f # rest \<and>
        ((\<not> revisited f \<and> (\<exists>f'. fs' = f' # fs \<and> index f' = 0 \<and> \<not> revisited f'))
         \<or> (revisited f \<and> belowLast f
             \<and> (\<exists>f'. fs' = f' # f\<lparr>index := index f + 1\<rparr> # rest \<and> index f' = 0
                    \<and> \<not> revisited f'))
         \<or> (index f + 1 = int (length (choices f))
             \<and> fs' = (case rest of [] \<Rightarrow> [] | t # r \<Rightarrow> t\<lparr>revisited := True\<rparr> # r)
             \<and> (revisited f
                 \<or> (\<exists>b \<in> set (coords (length g)).
                       cell (gridOf g fs) b = 0 \<and> opts sub (gridOf g fs) b = [])))))"

section \<open>The run, operation by operation\<close>

text \<open>
  The states a run of \<^verbatim>\<open>backtrack\<close> passes through, one rule for every call of
  \<^verbatim>\<open>push\<close>, \<^verbatim>\<open>pop\<close> and the first overload of \<^verbatim>\<open>increment\<close> in \<^verbatim>\<open>backtrack\<close>,
  \<^verbatim>\<open>tryToPush\<close> and the second overload of \<^verbatim>\<open>increment\<close>.  A point names the place of
  the code the run is at: after the construction of the blanks and the occurrence record,
  at the head of the loop, after the increment of the second overload, after a push that
  failed (in that overload, or in the \<^verbatim>\<open>tryToPush\<close> of the loop) and before the pop that
  follows it, and after the \<^verbatim>\<open>tryToPush\<close> of the second overload, before its test for an
  empty stack.
\<close>

datatype point =
    Constructed
  | Head
  | AfterIncrement
  | FailedPushInIncrement
  | AfterTryToPush
  | FailedPushInLoop

text \<open>The loop goes on: the stack is neither empty nor full.\<close>

definition continues :: "intgrid \<Rightarrow> solver \<Rightarrow> bool" where
  "continues g s =
     (blankStack s \<noteq> [] \<and> length (blankStack s) \<noteq> length (blankSquares g))"

inductive visits :: "int \<Rightarrow> intgrid \<Rightarrow> point \<Rightarrow> solver \<Rightarrow> bool"
  for subgridSize :: int and g :: intgrid where
  constructed:
    "visits subgridSize g Constructed (initial g)"
| first_push:
    "blanksInProcess (initial g) \<noteq> [] \<Longrightarrow> push subgridSize (initial g) = Inr (pushed, s')
     \<Longrightarrow> visits subgridSize g Head s'"
| loop_increment:
    "visits subgridSize g Head s \<Longrightarrow> continues g s
     \<Longrightarrow> revisited (hd (blankStack s)) \<and> belowLast (hd (blankStack s))
     \<Longrightarrow> increment s = Inr s'
     \<Longrightarrow> visits subgridSize g AfterIncrement s'"
| increment_pushed:
    "visits subgridSize g AfterIncrement s \<Longrightarrow> push subgridSize s = Inr (True, s')
     \<Longrightarrow> visits subgridSize g AfterTryToPush s'"
| increment_push_failed:
    "visits subgridSize g AfterIncrement s \<Longrightarrow> push subgridSize s = Inr (False, s')
     \<Longrightarrow> visits subgridSize g FailedPushInIncrement s'"
| increment_popped:
    "visits subgridSize g FailedPushInIncrement s \<Longrightarrow> pop s = Inr s'
     \<Longrightarrow> visits subgridSize g AfterTryToPush s'"
| restart:
    "visits subgridSize g AfterTryToPush s
     \<Longrightarrow> blankStack s = [] \<and> blanksInProcess s \<noteq> []
     \<Longrightarrow> push subgridSize s = Inr (pushed, s')
     \<Longrightarrow> visits subgridSize g Head s'"
| no_restart:
    "visits subgridSize g AfterTryToPush s
     \<Longrightarrow> \<not> (blankStack s = [] \<and> blanksInProcess s \<noteq> [])
     \<Longrightarrow> visits subgridSize g Head s"
| loop_pushed:
    "visits subgridSize g Head s \<Longrightarrow> continues g s
     \<Longrightarrow> \<not> (revisited (hd (blankStack s)) \<and> belowLast (hd (blankStack s)))
     \<Longrightarrow> \<not> revisited (hd (blankStack s))
     \<Longrightarrow> push subgridSize s = Inr (True, s')
     \<Longrightarrow> visits subgridSize g Head s'"
| loop_push_failed:
    "visits subgridSize g Head s \<Longrightarrow> continues g s
     \<Longrightarrow> \<not> (revisited (hd (blankStack s)) \<and> belowLast (hd (blankStack s)))
     \<Longrightarrow> \<not> revisited (hd (blankStack s))
     \<Longrightarrow> push subgridSize s = Inr (False, s')
     \<Longrightarrow> visits subgridSize g FailedPushInLoop s'"
| loop_popped:
    "visits subgridSize g FailedPushInLoop s \<Longrightarrow> pop s = Inr s'
     \<Longrightarrow> visits subgridSize g Head s'"
| loop_pop:
    "visits subgridSize g Head s \<Longrightarrow> continues g s
     \<Longrightarrow> \<not> (revisited (hd (blankStack s)) \<and> belowLast (hd (blankStack s)))
     \<Longrightarrow> \<not> \<not> revisited (hd (blankStack s))
     \<Longrightarrow> pop s = Inr s'
     \<Longrightarrow> visits subgridSize g Head s'"

text \<open>The operation the code runs next at a point throws the error \<open>e\<close>.\<close>

definition raises :: "int \<Rightarrow> intgrid \<Rightarrow> point \<Rightarrow> solver \<Rightarrow> error \<Rightarrow> bool" where
  "raises subgridSize g pt s e =
     (case pt of
        Constructed \<Rightarrow> blanksInProcess s \<noteq> [] \<and> push subgridSize s = Inl e
      | Head \<Rightarrow>
          continues g s
          \<and> (if revisited (hd (blankStack s)) \<and> belowLast (hd (blankStack s))
               then increment s = Inl e
             else if \<not> revisited (hd (blankStack s)) then push subgridSize s = Inl e
             else pop s = Inl e)
      | AfterIncrement \<Rightarrow> push subgridSize s = Inl e
      | FailedPushInIncrement \<Rightarrow> pop s = Inl e
      | AfterTryToPush \<Rightarrow>
          blankStack s = [] \<and> blanksInProcess s \<noteq> [] \<and> push subgridSize s = Inl e
      | FailedPushInLoop \<Rightarrow> pop s = Inl e)"

text \<open>What holds at each point of a run besides the invariant: after the increment the
  top frame has at least two choices and the stack is not full, a push never fails there,
  the stack is not empty after the \<^verbatim>\<open>tryToPush\<close> of the second overload, and a push fails
  in the loop only over a frame whose cursor is on its last choice.\<close>

definition pointInvariant :: "int \<Rightarrow> intgrid \<Rightarrow> point \<Rightarrow> solver \<Rightarrow> bool" where
  "pointInvariant sub g pt s =
     (invariant sub g s
      \<and> (case pt of
            Constructed \<Rightarrow> True
          | Head \<Rightarrow> True
          | AfterIncrement \<Rightarrow>
              blankStack s \<noteq> [] \<and> length (blankStack s) \<noteq> length (blankSquares g)
              \<and> 2 \<le> length (choices (hd (blankStack s)))
          | FailedPushInIncrement \<Rightarrow> False
          | AfterTryToPush \<Rightarrow> blankStack s \<noteq> []
          | FailedPushInLoop \<Rightarrow>
              blankStack s \<noteq> []
              \<and> index (hd (blankStack s)) + 1 = int (length (choices (hd (blankStack s))))))"

section \<open>Example grids\<close>

text \<open>A well-formed grid whose first blank has no legal digit while other blanks have.\<close>

definition deadEndGrid :: intgrid where
  "deadEndGrid = [[0, 1, 2, 3], [4, 0, 0, 0], [0, 0, 0, 0], [0, 0, 0, 0]]"

text \<open>Inputs for the search: a solvable grid on which the search backtracks, and its
  solution; a well-formed grid without completion on which the search backtracks before it
  gives up; a grid with one completion, and that completion.\<close>

definition searchGrid :: intgrid where
  "searchGrid = [[0, 0, 0, 0], [0, 0, 0, 0], [1, 0, 0, 0], [0, 0, 0, 4]]"

definition searchGridSolved :: intgrid where
  "searchGridSolved = [[4, 2, 3, 1], [3, 1, 4, 2], [1, 4, 2, 3], [2, 3, 1, 4]]"

definition unsolvableGrid :: intgrid where
  "unsolvableGrid = [[0, 0, 0, 1], [3, 1, 0, 0], [0, 0, 3, 0], [0, 3, 0, 0]]"

definition uniqueGrid :: intgrid where
  "uniqueGrid = [[0, 0, 0, 1], [4, 0, 0, 0], [0, 0, 2, 0], [3, 0, 0, 0]]"

definition uniqueGridSolved :: intgrid where
  "uniqueGridSolved = [[2, 3, 4, 1], [4, 1, 3, 2], [1, 4, 2, 3], [3, 2, 1, 4]]"

text \<open>Filling the listed cells in turn, each with its only legal digit; \<open>None\<close> when a
  listed cell has no or several legal digits.\<close>

fun forcedFill :: "int \<Rightarrow> intgrid \<Rightarrow> coord list \<Rightarrow> intgrid option" where
  "forcedFill sub h [] = Some h"
| "forcedFill sub h (b # bs) =
     (case opts sub h b of [v] \<Rightarrow> forcedFill sub (put h b v) bs | _ \<Rightarrow> None)"

text \<open>The states of the run on \<open>unsolvableGrid\<close>: after the push before the loop, after
  the push of the first pass of the loop, after the push of the second pass, which fails,
  and after the pop that follows it.\<close>

definition firstPushed :: solver where
  "firstPushed = snd (projr (push 2 (initial unsolvableGrid)))"

definition secondPushed :: solver where
  "secondPushed = snd (projr (push 2 firstPushed))"

definition thirdPushFailed :: solver where
  "thirdPushFailed = snd (projr (push 2 secondPushed))"

definition thirdPopped :: solver where
  "thirdPopped = projr (pop thirdPushFailed)"

section \<open>The consistency check decides the exclusion rule\<close>

lemma consistentColumn_iff:
  "consistentColumn location column subgridSize
     \<longleftrightarrow> (\<forall>c \<in> set column. consistent location c subgridSize)"
  by (induction column) auto

text \<open>
  Claim C5.  For a digit, a candidate coordinate and an occurrence record, the consistency
  check is true exactly when every coordinate recorded under the digit either is the
  candidate itself or shares with it no row, no column and no subregion, two coordinates
  being in one subregion when their rows and their columns have the same quotient by the
  subregion size (the truncating quotient of C++, which is undefined for a size of 0).
\<close>

theorem consistentDigit_iff:
  assumes "0 < subgridSize"
  shows "consistentDigit digit location occ subgridSize
     \<longleftrightarrow> (\<forall>c \<in> set (occ digit).
            c = location
            \<or> (fst c \<noteq> fst location \<and> snd c \<noteq> snd location
               \<and> \<not> (fst c sdiv subgridSize = fst location sdiv subgridSize
                    \<and> snd c sdiv subgridSize = snd location sdiv subgridSize)))"
  unfolding consistentDigit_def consistentColumn_iff consistent_def sameSubgrid_def
  by (intro ball_cong refl) auto

theorem consistentDigit_iff_witness:
  "(0::int) < 3
   \<and> consistentDigit 5 (1, 7) ((\<lambda>d. [])(5 := [(0, 0), (4, 4), (1, 7)])) 3
   \<and> \<not> consistentDigit 5 (1, 7) ((\<lambda>d. [])(5 := [(0, 0), (2, 8)])) 3"
  using consistentDigit_iff [of 3 5 "(1, 7)" "(\<lambda>d. [])(5 := [(0, 0), (4, 4), (1, 7)])"]
    consistentDigit_iff [of 3 5 "(1, 7)" "(\<lambda>d. [])(5 := [(0, 0), (2, 8)])"]
  by (simp add: signed_divide_int_def)

section \<open>Grids, coordinates and options\<close>

lemma set_coords: "set (coords n) = {c. inside n c}"
proof (rule set_eqI)
  fix c :: coord
  obtain a b where c: "c = (a, b)" by (cases c)
  show "c \<in> set (coords n) \<longleftrightarrow> c \<in> {c. inside n c}"
  proof
    assume "c \<in> set (coords n)"
    then show "c \<in> {c. inside n c}" by (auto simp: coords_def inside_def)
  next
    assume "c \<in> {c. inside n c}"
    then have "0 \<le> a" "0 \<le> b" "a < int n" "b < int n"
      by (auto simp: c inside_def)
    then obtain i j where ij: "a = int i" "b = int j" "i < n" "j < n"
      by (metis nat_less_iff nat_0_le)
    have "(int i, int j) \<in> (\<lambda>xa. (int i, int xa)) ` {0..<n}"
      using ij by (intro image_eqI[where x = j]) auto
    then have "\<exists>x\<in>{0..<n}. (int i, int j) \<in> (\<lambda>xa. (int x, int xa)) ` {0..<n}"
      using ij by (intro bexI[where x = i]) auto
    then show "c \<in> set (coords n)"
      unfolding c coords_def ij by simp
  qed
qed

lemma distinct_coords: "distinct (coords n)"
  unfolding coords_def
  by (rule distinct_concat) (auto simp: distinct_map inj_on_def)

lemma length_put [simp]: "length (put h c v) = length h"
  by (simp add: put_def)

lemma square_put: "square n h \<Longrightarrow> square n (put h c v)"
proof -
  assume sq: "square n h"
  show ?thesis
  proof (cases "nat (fst c) < length h")
    case True
    then have "length ((h ! nat (fst c))[nat (snd c) := v]) = n"
      using sq by (simp add: square_def)
    moreover have "set (put h c v) \<subseteq> insert ((h ! nat (fst c))[nat (snd c) := v]) (set h)"
      unfolding put_def by (rule set_update_subset_insert)
    ultimately show ?thesis
      using sq by (auto simp: square_def)
  next
    case False
    then show ?thesis using sq by (simp add: put_def list_update_beyond)
  qed
qed

lemma cell_put:
  assumes "square n h" "inside n c" "inside n c'"
  shows "cell (put h c v) c' = (if c' = c then v else cell h c')"
proof -
  have r: "nat (fst c) < length h" "nat (fst c') < length h"
    using assms by (auto simp: square_def inside_def)
  have l: "nat (snd c) < length (h ! nat (fst c))"
    using assms r by (auto simp: square_def inside_def)
  have e: "c' = c \<longleftrightarrow> nat (fst c') = nat (fst c) \<and> nat (snd c') = nat (snd c)"
    using assms by (auto simp: inside_def prod_eq_iff)
  show ?thesis
    using r l e by (auto simp: cell_def put_def nth_list_update)
qed

lemma put_put: "put (put h c a) c b = put h c b"
proof (cases "nat (fst c) < length h")
  case True
  then show ?thesis by (simp add: put_def)
next
  case False
  then show ?thesis by (simp add: put_def list_update_beyond)
qed

lemma put_cell_same:
  "cell h c = v \<Longrightarrow> put h c v = h"
  by (auto simp: put_def cell_def)

lemma sdiv_nonneg: "0 \<le> a \<Longrightarrow> 0 < b \<Longrightarrow> a sdiv b = a div (b::int)"
  by (simp add: signed_divide_int_def sgn_if)

lemma consistent_sharesUnit:
  assumes "0 < sub" "inside n c" "inside n c'"
  shows "consistent c c' sub \<longleftrightarrow> (c = c' \<or> \<not> sharesUnit sub c c')"
  using assms
  by (auto simp: consistent_def sameSubgrid_def sharesUnit_def inside_def sdiv_nonneg)

lemma consistentDigit_legal:
  assumes "coherent h occ" "d \<noteq> 0"
  shows "consistentDigit d c occ sub \<longleftrightarrow> legal sub h c d"
  using assms
  by (auto simp: consistentDigit_def consistentColumn_iff legal_def coherent_def set_coords)

lemma optionsLoop_eq:
  assumes "square n h" "inside n c"
  shows "optionsLoop c occ sub ds h acc =
     (if ds = [] then h else put h c (last ds + 1),
      acc @ filter (\<lambda>d. consistentDigit d c occ sub) (map (\<lambda>a. a + 1) ds))"
  using assms
proof (induction ds arbitrary: h acc)
  case Nil
  then show ?case by simp
next
  case (Cons a ds)
  have sq: "square n (put h c (a + 1))" using Cons.prems square_put by blast
  show ?case
    using Cons.IH[OF sq Cons.prems(2)] Cons.prems
    by (simp add: cell_put put_put Let_def)
qed

lemma map_Suc_upt_int: "map (\<lambda>a. a + 1) (map int [0..<n]) = map int [1..<n + 1]"
proof -
  have "map int [1..<n + 1] = map int (map Suc [0..<n])"
    by (simp add: map_Suc_upt)
  then show ?thesis by (simp add: comp_def)
qed

lemma options_eq:
  assumes "square n h" "inside n c"
  shows "options c h occ sub =
     (filter (\<lambda>d. consistentDigit d c occ sub) (map int [1..<n + 1]), put h c 0)"
proof -
  have cp: "checkPair c h"
    using assms by (auto simp: checkPair_def checkIndex_def inside_def square_def)
  have len: "length h = n" using assms by (simp add: square_def)
  have "optionsLoop c occ sub (map int [0..<length h]) h [] =
     (if n = 0 then h else put h c (last (map int [0..<n]) + 1),
      filter (\<lambda>d. consistentDigit d c occ sub) (map int [1..<n + 1]))"
    unfolding optionsLoop_eq[OF assms] len map_Suc_upt_int by simp
  then show ?thesis
    using cp by (simp add: options_def put_put)
qed

lemma options_opts:
  assumes "square n h" "inside n c" "coherent h occ"
  shows "options c h occ sub = (opts sub h c, put h c 0)"
proof -
  have "filter (\<lambda>d. consistentDigit d c occ sub) (map int [1..<n + 1])
      = filter (legal sub h c) (map int [1..<n + 1])"
    by (rule filter_cong) (auto simp: consistentDigit_legal[OF assms(3)])
  then show ?thesis
    using assms by (simp add: options_eq[OF assms(1,2)] opts_def square_def)
qed

lemma countSuccessful_eq:
  "countSuccessful b occ sub th ds acc =
     (if acc < th then min th (acc + int (length (filter (\<lambda>d. consistentDigit d b occ sub) ds)))
      else acc)"
  by (induction ds arbitrary: acc) auto

section \<open>The selector\<close>

lemma countSuccessful_optionCount:
  "countSuccessful b occ sub th (map int [1..<length g + 1]) 0 =
     (if 0 < th then min th (int (optionCount g occ sub b)) else 0)"
  unfolding countSuccessful_eq optionCount_def by simp

lemma optionCount_put [simp]: "optionCount (put g c v) occ sub b = optionCount g occ sub b"
  by (simp add: optionCount_def)

lemma minScan_Cons:
  "minScan g occ sub (b # rest) iter th cm =
     (if th = 0 then (cm, th)
      else if 0 < th \<and> int (optionCount g occ sub b) < th
        then minScan g occ sub rest (Suc iter) (int (optionCount g occ sub b)) iter
        else minScan g occ sub rest (Suc iter) th cm)"
proof -
  have "minScan g occ sub (b # rest) iter th cm =
     (if th = 0 then (cm, th)
      else let sd = (if 0 < th then min th (int (optionCount g occ sub b)) else 0)
        in if sd < th then minScan g occ sub rest (iter + 1) sd iter
           else minScan g occ sub rest (iter + 1) th cm)"
    by (simp only: minScan.simps countSuccessful_optionCount)
  then show ?thesis
    by (auto simp: Let_def min_def)
qed

lemma minScan_spec:
  assumes "all = pre @ rest" "iter = length pre" "cm < length pre"
    and "th = int (optionCount g occ sub (all ! cm))"
    and "\<forall>q < length pre. th \<le> int (optionCount g occ sub (all ! q))"
    and "\<forall>q < cm. th < int (optionCount g occ sub (all ! q))"
    and "minScan g occ sub rest iter th cm = (cm', th')"
  shows "cm' < length all \<and> th' = int (optionCount g occ sub (all ! cm'))
     \<and> (\<forall>q < length all. th' \<le> int (optionCount g occ sub (all ! q)))
     \<and> (\<forall>q < cm'. th' < int (optionCount g occ sub (all ! q)))"
  using assms
proof (induction rest arbitrary: pre iter cm th)
  case Nil
  then show ?case by auto
next
  case (Cons b rest)
  let ?cnt = "\<lambda>x. int (optionCount g occ sub x)"
  have allb: "all ! length pre = b" using Cons.prems(1) by simp
  have all': "all = (pre @ [b]) @ rest" using Cons.prems(1) by simp
  show ?case
  proof (cases "th = 0")
    case True
    then have "cm' = cm" "th' = 0" using Cons.prems(7) by (simp_all add: minScan_Cons del: minScan.simps)
    then show ?thesis using Cons.prems True by auto
  next
    case False
    then have pos: "0 < th" using Cons.prems(4) by simp
    show ?thesis
    proof (cases "?cnt b < th")
      case True
      then have run: "minScan g occ sub rest (Suc iter) (?cnt b) iter = (cm', th')"
        using Cons.prems(7) False pos by (simp add: minScan_Cons del: minScan.simps)
      have a: "\<forall>q < length (pre @ [b]). ?cnt b \<le> ?cnt (all ! q)"
        using Cons.prems(5) True allb by (auto simp: less_Suc_eq)
      have b': "\<forall>q < iter. ?cnt b < ?cnt (all ! q)"
        using Cons.prems(2,5) True by fastforce
      show ?thesis
        by (rule Cons.IH[OF all' _ _ _ a b' run])
           (use Cons.prems(2) allb in auto)
    next
      case False
      then have run: "minScan g occ sub rest (Suc iter) th cm = (cm', th')"
        using Cons.prems(7) \<open>th \<noteq> 0\<close> pos by (simp add: minScan_Cons del: minScan.simps)
      have a: "\<forall>q < length (pre @ [b]). th \<le> ?cnt (all ! q)"
        using Cons.prems(5) False allb by (auto simp: less_Suc_eq)
      show ?thesis
        by (rule Cons.IH[OF all' _ _ Cons.prems(4) a Cons.prems(6) run])
           (use Cons.prems(2,3) in auto)
    qed
  qed
qed

lemma minBlank_spec:
  assumes "square n g" "blanks \<noteq> []" "\<forall>b \<in> set blanks. inside n b"
  shows "\<exists>p. minBlank g blanks occ sub
        = (p, optionCount g occ sub (blanks ! p) \<noteq> 0, put g (hd blanks) 0)
     \<and> p < length blanks
     \<and> (\<forall>q < length blanks. optionCount g occ sub (blanks ! p) \<le> optionCount g occ sub (blanks ! q))
     \<and> (\<forall>q < p. optionCount g occ sub (blanks ! p) < optionCount g occ sub (blanks ! q))"
proof -
  obtain b rest where bl: "blanks = b # rest" using assms(2) by (cases blanks) auto
  have ib: "inside n b" using assms(3) bl by simp
  have len: "length g = n" using assms(1) by (simp add: square_def)
  have o: "options b g occ sub =
     (filter (\<lambda>d. consistentDigit d b occ sub) (map int [1..<length g + 1]), put g b 0)"
    using options_eq[OF assms(1) ib] len by simp
  obtain cm' th' where run:
    "minScan (put g b 0) occ sub rest 1 (int (optionCount g occ sub b)) 0 = (cm', th')"
    by (cases "minScan (put g b 0) occ sub rest 1 (int (optionCount g occ sub b)) 0") auto
  have spec: "cm' < length blanks \<and> th' = int (optionCount (put g b 0) occ sub (blanks ! cm'))
     \<and> (\<forall>q < length blanks. th' \<le> int (optionCount (put g b 0) occ sub (blanks ! q)))
     \<and> (\<forall>q < cm'. th' < int (optionCount (put g b 0) occ sub (blanks ! q)))"
    by (rule minScan_spec[where pre = "[b]" and rest = rest, OF _ _ _ _ _ _ run])
       (simp_all add: bl)
  have mb: "minBlank g blanks occ sub = (cm', th' \<noteq> 0, put g b 0)"
    using run by (simp add: minBlank_def bl o optionCount_def)
  have hd: "hd blanks = b" by (simp add: bl)
  show ?thesis
    using spec mb unfolding hd optionCount_put
    by (intro exI[where x = cm']) auto
qed

lemma optionCount_options:
  assumes "square n g" "inside n b"
  shows "optionCount g occ sub b = length (fst (options b g occ sub))"
  using assms by (simp add: options_eq[OF assms] optionCount_def square_def)

text \<open>
  Claim C6, as the code has it.  On a non-empty pool of coordinates of the grid, the
  selector returns a position of the pool whose coordinate has the least number of legal
  options, the earliest position among those with that number, and its flag is true
  exactly when every blank of the pool has at least one option: a single blank without an
  option makes the flag false, whatever the other blanks have.
\<close>

theorem minBlank_selects:
  assumes "square n g" "blanks \<noteq> []" "\<forall>b \<in> set blanks. inside n b"
  shows "\<exists>p g'. minBlank g blanks occ sub
          = (p, (\<forall>b \<in> set blanks. 0 < optionCount g occ sub b), g')
     \<and> p < length blanks
     \<and> (\<forall>q < length blanks. optionCount g occ sub (blanks ! p) \<le> optionCount g occ sub (blanks ! q))
     \<and> (\<forall>q < p. optionCount g occ sub (blanks ! p) < optionCount g occ sub (blanks ! q))"
proof -
  obtain p where p: "minBlank g blanks occ sub
        = (p, optionCount g occ sub (blanks ! p) \<noteq> 0, put g (hd blanks) 0)"
     "p < length blanks"
     "\<forall>q < length blanks. optionCount g occ sub (blanks ! p) \<le> optionCount g occ sub (blanks ! q)"
     "\<forall>q < p. optionCount g occ sub (blanks ! p) < optionCount g occ sub (blanks ! q)"
    using minBlank_spec[OF assms] by blast
  have "(optionCount g occ sub (blanks ! p) \<noteq> 0) = (\<forall>b \<in> set blanks. 0 < optionCount g occ sub b)"
  proof
    assume nz: "optionCount g occ sub (blanks ! p) \<noteq> 0"
    show "\<forall>b \<in> set blanks. 0 < optionCount g occ sub b"
    proof
      fix b assume "b \<in> set blanks"
      then obtain q where "q < length blanks" "blanks ! q = b" by (auto simp: in_set_conv_nth)
      then show "0 < optionCount g occ sub b" using p(3) nz by force
    qed
  next
    assume "\<forall>b \<in> set blanks. 0 < optionCount g occ sub b"
    then show "optionCount g occ sub (blanks ! p) \<noteq> 0" using p(2) by force
  qed
  then show ?thesis using p by auto
qed

theorem minBlank_selects_witness:
  "square 4 deadEndGrid \<and> blankSquares deadEndGrid \<noteq> []
   \<and> list_all (inside 4) (blankSquares deadEndGrid)
   \<and> (\<exists>p g'. minBlank deadEndGrid (blankSquares deadEndGrid) (occurrences deadEndGrid) 2
          = (p, (\<forall>b \<in> set (blankSquares deadEndGrid).
                   0 < optionCount deadEndGrid (occurrences deadEndGrid) 2 b), g')
       \<and> p < length (blankSquares deadEndGrid)
       \<and> (\<forall>q < length (blankSquares deadEndGrid).
             optionCount deadEndGrid (occurrences deadEndGrid) 2 (blankSquares deadEndGrid ! p)
             \<le> optionCount deadEndGrid (occurrences deadEndGrid) 2 (blankSquares deadEndGrid ! q))
       \<and> (\<forall>q < p.
             optionCount deadEndGrid (occurrences deadEndGrid) 2 (blankSquares deadEndGrid ! p)
             < optionCount deadEndGrid (occurrences deadEndGrid) 2 (blankSquares deadEndGrid ! q)))"
proof -
  have h1: "square 4 deadEndGrid" by code_simp
  have h2: "blankSquares deadEndGrid \<noteq> []" by code_simp
  have h3: "\<forall>b \<in> set (blankSquares deadEndGrid). inside 4 b" by code_simp
  show ?thesis
    using minBlank_selects[OF h1 h2 h3, of "occurrences deadEndGrid" 2] h1 h2 h3
    unfolding list_all_iff by blast
qed

text \<open>
  Claim C6 as stated fails: on the pool of all blanks of \<open>deadEndGrid\<close> the flag is false,
  although the blank at (3, 3) of the pool has three legal options.
\<close>

theorem minBlank_flag_counterexample:
  "\<not> fst (snd (minBlank deadEndGrid (blankSquares deadEndGrid) (occurrences deadEndGrid) 2))
   \<and> (3, 3) \<in> set (blankSquares deadEndGrid)
   \<and> length (fst (options (3, 3) deadEndGrid (occurrences deadEndGrid) 2)) = 3"
  by code_simp

section \<open>The grid described by a stack\<close>

lemma length_gridOf [simp]: "length (gridOf g fs) = length g"
  by (induction fs) simp_all

lemma square_gridOf: "square n g \<Longrightarrow> square n (gridOf g fs)"
  by (induction fs) (simp_all add: square_put)

lemma gridOf_revisited [simp]: "gridOf g (f\<lparr>revisited := r\<rparr> # fs) = gridOf g (f # fs)"
  by (simp add: cur_def)

lemma framesOk_revisited [simp]:
  "framesOk sub g (f\<lparr>revisited := r\<rparr> # fs) = framesOk sub g (f # fs)"
  by simp

lemma explored_revisited [simp]:
  "explored g sol (f\<lparr>revisited := r\<rparr> # fs) = explored g sol (f # fs)"
  by simp

lemma valBelow_revisited [simp]:
  "valBelow B D (f\<lparr>revisited := r\<rparr> # fs) = valBelow B D (f # fs)"
  by simp

subsection \<open>Legal digits\<close>

lemma opts_range: "d \<in> set (opts sub h c) \<Longrightarrow> 1 \<le> d \<and> d \<le> int (length h)"
  by (auto simp: opts_def)

lemma opts_legal: "d \<in> set (opts sub h c) \<Longrightarrow> legal sub h c d"
  by (auto simp: opts_def)

lemma opts_member:
  "1 \<le> d \<Longrightarrow> d \<le> int (length h) \<Longrightarrow> legal sub h c d \<Longrightarrow> d \<in> set (opts sub h c)"
proof -
  assume a: "1 \<le> d" "d \<le> int (length h)" "legal sub h c d"
  then have "nat d \<in> set [1..<length h + 1]" "int (nat d) = d" by auto
  then have "d \<in> set (map int [1..<length h + 1])" by (metis image_eqI set_map)
  then show ?thesis using a by (simp add: opts_def del: upt_Suc)
qed

lemma distinct_opts: "distinct (opts sub h c)"
  by (simp add: opts_def distinct_map inj_on_def del: upt_Suc)

lemma filter_length_mono:
  "(\<And>x. x \<in> set ds \<Longrightarrow> P x \<Longrightarrow> Q x) \<Longrightarrow> length (filter P ds) \<le> length (filter Q ds)"
  by (induction ds) auto

lemma filter_length_except:
  "distinct ds \<Longrightarrow> length (filter P ds) \<le> Suc (length (filter (\<lambda>x. P x \<and> x \<noteq> d) ds))"
proof (induction ds)
  case Nil
  then show ?case by simp
next
  case (Cons a ds)
  show ?case
  proof (cases "a = d")
    case True
    then have "d \<notin> set ds" using Cons.prems by simp
    then have "filter (\<lambda>x. P x \<and> x \<noteq> d) ds = filter P ds"
      by (intro filter_cong) auto
    then show ?thesis using True by simp
  next
    case False
    then show ?thesis using Cons by simp
  qed
qed

lemma opts_after_put:
  assumes "square n h" "inside n c0" "inside n b" "b \<noteq> c0" "cell h c0 = 0"
  shows "length (opts sub h b) \<le> Suc (length (opts sub (put h c0 d) b))"
proof -
  let ?ds = "map int [1..<length h + 1]"
  have dist: "distinct ?ds" by (simp add: distinct_map inj_on_def del: upt_Suc)
  have imp: "\<And>x. x \<in> set ?ds \<Longrightarrow> legal sub h b x \<and> x \<noteq> d \<Longrightarrow> legal sub (put h c0 d) b x"
  proof -
    fix x assume "x \<in> set ?ds" and lx: "legal sub h b x \<and> x \<noteq> d"
    show "legal sub (put h c0 d) b x"
      unfolding legal_def
    proof (intro ballI impI)
      fix c' assume c': "c' \<in> set (coords (length (put h c0 d)))" "cell (put h c0 d) c' = x"
      have len: "length h = n" using assms(1) by (simp add: square_def)
      have ic': "inside n c'" using c'(1) len by (simp add: set_coords)
      have "c' \<noteq> c0" using c'(2) lx cell_put[OF assms(1,2) assms(2)] by auto
      then have "cell h c' = x" using c'(2) cell_put[OF assms(1,2) ic'] by simp
      then show "consistent b c' sub" using lx c'(1) by (auto simp: legal_def)
    qed
  qed
  have "length (filter (legal sub h b) ?ds)
      \<le> Suc (length (filter (\<lambda>x. legal sub h b x \<and> x \<noteq> d) ?ds))"
    by (rule filter_length_except[OF dist])
  also have "\<dots> \<le> Suc (length (filter (legal sub (put h c0 d) b) ?ds))"
    using filter_length_mono[of ?ds "\<lambda>x. legal sub h b x \<and> x \<noteq> d" "legal sub (put h c0 d) b"] imp
    by simp
  finally show ?thesis by (simp add: opts_def del: upt_Suc)
qed

subsection \<open>Coherence under the three mutations\<close>

lemma coherentD:
  "coherent h occ \<Longrightarrow> d \<noteq> 0 \<Longrightarrow> (c \<in> set (occ d)) = (inside (length h) c \<and> cell h c = d)"
  unfolding coherent_def by blast

lemma coherentI:
  "(\<And>d c. d \<noteq> 0 \<Longrightarrow> (c \<in> set (occ d)) = (inside (length h) c \<and> cell h c = d))
     \<Longrightarrow> coherent h occ"
  unfolding coherent_def by blast

lemma coherent_record:
  assumes "coherent h occ" "square n h" "inside n c" "cell h c = 0" "d \<noteq> 0"
  shows "coherent (put h c d) (occ(d := occ d @ [c]))"
proof (rule coherentI)
  fix e :: int and x :: coord assume e: "e \<noteq> 0"
  have len: "length h = n" using assms(2) by (simp add: square_def)
  note co = coherentD[OF assms(1) e, of x] coherentD[OF assms(1) assms(5), of x]
  show "(x \<in> set ((occ(d := occ d @ [c])) e)) = (inside (length (put h c d)) x \<and> cell (put h c d) x = e)"
  proof (cases "inside n x")
    case True
    then show ?thesis
      using assms(3,4,5) e cell_put[OF assms(2,3) True] len co
      by auto
  next
    case False
    then show ?thesis using assms(3) e len co by auto
  qed
qed

lemma coherent_erase:
  assumes "coherent h occ" "square n h" "inside n c" "cell h c = d" "d \<noteq> 0" "distinct (occ d)"
  shows "coherent (put h c 0) (occ(d := remove1 c (occ d)))"
proof (rule coherentI)
  fix e :: int and x :: coord assume e: "e \<noteq> 0"
  have len: "length h = n" using assms(2) by (simp add: square_def)
  note co = coherentD[OF assms(1) e, of x] coherentD[OF assms(1) assms(5), of x]
  show "(x \<in> set ((occ(d := remove1 c (occ d))) e)) = (inside (length (put h c 0)) x \<and> cell (put h c 0) x = e)"
  proof (cases "inside n x")
    case True
    then show ?thesis
      using assms(3,4,5,6) e cell_put[OF assms(2,3) True] len co
      by auto
  next
    case False
    then show ?thesis using assms(3,6) e len co by (auto dest: notin_set_remove1)
  qed
qed

lemma coherent_not_recorded:
  "coherent h occ \<Longrightarrow> cell h c = 0 \<Longrightarrow> d \<noteq> 0 \<Longrightarrow> c \<notin> set (occ d)"
  by (simp add: coherentD)

lemma coherent_recorded:
  "coherent h occ \<Longrightarrow> inside (length h) c \<Longrightarrow> cell h c = d \<Longrightarrow> d \<noteq> 0 \<Longrightarrow> c \<in> set (occ d)"
  by (simp add: coherentD)

lemma optionCount_opts:
  assumes "coherent h occ"
  shows "optionCount h occ sub b = length (opts sub h b)"
proof -
  have "filter (\<lambda>d. consistentDigit d b occ sub) (map int [1..<length h + 1])
      = filter (legal sub h b) (map int [1..<length h + 1])"
  proof (rule filter_cong[OF refl])
    fix x assume "x \<in> set (map int [1..<length h + 1])"
    then have "x \<noteq> 0" by auto
    then show "consistentDigit x b occ sub = legal sub h b x"
      by (rule consistentDigit_legal[OF assms])
  qed
  then show ?thesis by (simp add: optionCount_def opts_def del: upt_Suc)
qed

section \<open>The operations keep the invariant\<close>

lemma cur_in_choices:
  "0 \<le> index f \<Longrightarrow> index f < int (length (choices f)) \<Longrightarrow> cur f \<in> set (choices f)"
  by (simp add: cur_def)

lemma framesOk_cur:
  assumes "framesOk sub g (f # fs)"
  shows "1 \<le> cur f" "cur f \<le> int (length g)" "cur f \<noteq> 0"
    "legal sub (gridOf g fs) (coordinates f) (cur f)"
proof -
  have "cur f \<in> set (opts sub (gridOf g fs) (coordinates f))"
    using assms cur_in_choices[of f] by auto
  then show "1 \<le> cur f" "cur f \<le> int (length g)" "cur f \<noteq> 0"
    "legal sub (gridOf g fs) (coordinates f) (cur f)"
    using opts_range[of "cur f" sub "gridOf g fs" "coordinates f"] opts_legal by auto
qed

lemma invariantD:
  assumes "invariant sub g s"
  shows "grid s = gridOf g (blankStack s)"
    and "coherent (grid s) (recordsEachDigit s)"
    and "\<And>d. distinct (recordsEachDigit s d)"
    and "distinct (blanksInProcess s)"
    and "set (blanksInProcess s) = {c \<in> set (coords (length g)). cell (grid s) c = 0}"
    and "length (blankStack s) + length (blanksInProcess s) = length (blankSquares g)"
    and "framesOk sub g (blankStack s)"
  using assms unfolding invariant_def by blast+

lemma invariant_square:
  "invariant sub g s \<Longrightarrow> square n g \<Longrightarrow> square n (grid s)"
  by (simp add: invariantD(1) square_gridOf)

lemma invariant_blanks:
  assumes "invariant sub g s" "square n g" "b \<in> set (blanksInProcess s)"
  shows "inside n b" "cell (grid s) b = 0"
  using assms(2,3) invariantD(5)[OF assms(1)] by (auto simp: set_coords square_def)

lemma blank_in_blanks:
  assumes "invariant sub g s" "square n g" "inside n b" "cell (grid s) b = 0"
  shows "b \<in> set (blanksInProcess s)"
  using assms(2,3,4) invariantD(5)[OF assms(1)] by (auto simp: set_coords square_def)

lemma minBlank_invariant:
  assumes inv: "invariant sub g s" and sq: "square n g" and ne: "blanksInProcess s \<noteq> []"
  shows "\<exists>p. minBlank (grid s) (blanksInProcess s) (recordsEachDigit s) sub
        = (p, opts sub (grid s) (blanksInProcess s ! p) \<noteq> [], grid s)
     \<and> p < length (blanksInProcess s)
     \<and> (\<forall>b \<in> set (blanksInProcess s).
           length (opts sub (grid s) (blanksInProcess s ! p)) \<le> length (opts sub (grid s) b))"
proof -
  let ?bl = "blanksInProcess s" and ?occ = "recordsEachDigit s"
  have sqs: "square n (grid s)" by (rule invariant_square[OF inv sq])
  have ins: "\<forall>b \<in> set ?bl. inside n b" using invariant_blanks(1)[OF inv sq] by blast
  have co: "coherent (grid s) ?occ" by (rule invariantD(2)[OF inv])
  have "hd ?bl \<in> set ?bl" using ne by simp
  then have "cell (grid s) (hd ?bl) = 0" by (rule invariant_blanks(2)[OF inv sq])
  then have same: "put (grid s) (hd ?bl) 0 = grid s" by (rule put_cell_same)
  obtain p where p: "minBlank (grid s) ?bl ?occ sub
        = (p, optionCount (grid s) ?occ sub (?bl ! p) \<noteq> 0, put (grid s) (hd ?bl) 0)"
      "p < length ?bl"
      "\<forall>q < length ?bl. optionCount (grid s) ?occ sub (?bl ! p) \<le> optionCount (grid s) ?occ sub (?bl ! q)"
    using minBlank_spec[OF sqs ne ins, of ?occ sub] by blast
  have "\<forall>b \<in> set ?bl. length (opts sub (grid s) (?bl ! p)) \<le> length (opts sub (grid s) b)"
  proof
    fix b assume "b \<in> set ?bl"
    then obtain q where "q < length ?bl" "?bl ! q = b" by (auto simp: in_set_conv_nth)
    then show "length (opts sub (grid s) (?bl ! p)) \<le> length (opts sub (grid s) b)"
      using p(3) optionCount_opts[OF co, of sub] by metis
  qed
  then show ?thesis
    using p(1,2) same by (intro exI[where x = p]) (simp add: optionCount_opts[OF co])
qed

lemma push_fail:
  assumes inv: "invariant sub g s" and sq: "square n g" and ne: "blanksInProcess s \<noteq> []"
    and dead: "\<exists>b \<in> set (blanksInProcess s). opts sub (grid s) b = []"
  shows "push sub s = Inr (False, s)"
proof -
  obtain p where p: "minBlank (grid s) (blanksInProcess s) (recordsEachDigit s) sub
        = (p, opts sub (grid s) (blanksInProcess s ! p) \<noteq> [], grid s)"
     "\<forall>b \<in> set (blanksInProcess s).
           length (opts sub (grid s) (blanksInProcess s ! p)) \<le> length (opts sub (grid s) b)"
    using minBlank_invariant[OF inv sq ne] by blast
  have "opts sub (grid s) (blanksInProcess s ! p) = []" using p(2) dead by fastforce
  then show ?thesis using ne p(1) by (simp add: push_def)
qed

lemma push_ok:
  assumes inv: "invariant sub g s" and sq: "square n g" and ne: "blanksInProcess s \<noteq> []"
    and live: "\<forall>b \<in> set (blanksInProcess s). opts sub (grid s) b \<noteq> []"
  shows "\<exists>s' f. push sub s = Inr (True, s') \<and> invariant sub g s'
     \<and> blankStack s' = f # blankStack s \<and> index f = 0 \<and> \<not> revisited f"
proof -
  let ?bl = "blanksInProcess s" and ?occ = "recordsEachDigit s" and ?h = "grid s"
  obtain p where p: "minBlank ?h ?bl ?occ sub = (p, opts sub ?h (?bl ! p) \<noteq> [], ?h)"
     "p < length ?bl"
     "\<forall>b \<in> set ?bl. length (opts sub ?h (?bl ! p)) \<le> length (opts sub ?h b)"
    using minBlank_invariant[OF inv sq ne] by blast
  define loc where "loc = ?bl ! p"
  define chs where "chs = opts sub ?h loc"
  define f where "f = \<lparr>coordinates = loc, choices = chs, index = 0, revisited = False\<rparr>"
  define s' where "s' = \<lparr>blankStack = f # blankStack s,
      blanksInProcess = take p ?bl @ drop (Suc p) ?bl,
      recordsEachDigit = ?occ(chs ! 0 := ?occ (chs ! 0) @ [loc]),
      grid = put ?h loc (chs ! 0)\<rparr>"
  have locin: "loc \<in> set ?bl" using p(2) by (simp add: loc_def)
  have iloc: "inside n loc" and zloc: "cell ?h loc = 0"
    using invariant_blanks[OF inv sq locin] by auto
  have sqs: "square n ?h" by (rule invariant_square[OF inv sq])
  have len: "length g = n" "length ?h = n" using sq sqs by (auto simp: square_def)
  have co: "coherent ?h ?occ" by (rule invariantD(2)[OF inv])
  have chne: "chs \<noteq> []" using live locin by (simp add: chs_def)
  have o: "options loc ?h ?occ sub = (chs, ?h)"
    using options_opts[OF sqs iloc co, of sub] put_cell_same[OF zloc] by (simp add: chs_def)
  have pushed: "push sub s = Inr (True, s')"
    using ne p(1) chne o
    by (simp add: push_def loc_def[symmetric] chs_def[symmetric] s'_def f_def)
  have c0: "chs ! 0 \<in> set chs" using chne by (cases chs) auto
  then have d0: "chs ! 0 \<noteq> 0" using opts_range[of "chs ! 0" sub ?h loc] by (auto simp: chs_def)
  have curf: "cur f = chs ! 0" by (simp add: cur_def f_def)
  have cf: "coordinates f = loc" "choices f = chs" "index f = 0" "\<not> revisited f"
    by (simp_all add: f_def)
  have g': "grid s' = gridOf g (blankStack s')"
    using invariantD(1)[OF inv] by (simp add: s'_def curf cf)
  have co': "coherent (grid s') (recordsEachDigit s')"
    using coherent_record[OF co sqs iloc zloc d0] by (simp add: s'_def)
  have di': "\<forall>d. distinct (recordsEachDigit s' d)"
    using invariantD(3)[OF inv] coherent_not_recorded[OF co zloc d0] by (simp add: s'_def)
  have dbl: "distinct ?bl" by (rule invariantD(4)[OF inv])
  have bl_split: "?bl = take p ?bl @ loc # drop (Suc p) ?bl"
    using p(2) by (simp add: loc_def id_take_nth_drop)
  have "distinct (take p ?bl @ loc # drop (Suc p) ?bl)" using dbl bl_split by simp
  then have dbl': "distinct (take p ?bl @ drop (Suc p) ?bl)"
    and notin: "loc \<notin> set (take p ?bl @ drop (Suc p) ?bl)" by auto
  have "set ?bl = insert loc (set (take p ?bl @ drop (Suc p) ?bl))"
    by (subst bl_split) simp
  then have sbl': "set (take p ?bl @ drop (Suc p) ?bl) = set ?bl - {loc}"
    using notin by auto
  have zeros: "{c \<in> set (coords (length g)). cell (put ?h loc (chs ! 0)) c = 0}
      = {c \<in> set (coords (length g)). cell ?h c = 0} - {loc}"
  proof (rule set_eqI)
    fix c :: coord
    show "c \<in> {c \<in> set (coords (length g)). cell (put ?h loc (chs ! 0)) c = 0}
      \<longleftrightarrow> c \<in> {c \<in> set (coords (length g)). cell ?h c = 0} - {loc}"
    proof (cases "inside n c")
      case True
      then show ?thesis
        using d0 cell_put[OF sqs iloc True, of "chs ! 0"] by (simp add: set_coords len)
    next
      case False
      then show ?thesis by (simp add: set_coords len)
    qed
  qed
  have bs': "set (blanksInProcess s') = {c \<in> set (coords (length g)). cell (grid s') c = 0}"
    using invariantD(5)[OF inv] sbl' zeros by (simp add: s'_def)
  have ln': "length (blankStack s') + length (blanksInProcess s') = length (blankSquares g)"
    using invariantD(6)[OF inv] p(2) by (simp add: s'_def)
  have least: "\<forall>b \<in> set (coords (length g)). cell (gridOf g (blankStack s)) b = 0
       \<longrightarrow> length chs \<le> length (opts sub (gridOf g (blankStack s)) b)"
  proof (intro ballI impI)
    fix b assume "b \<in> set (coords (length g))" "cell (gridOf g (blankStack s)) b = 0"
    then have "b \<in> set ?bl"
      using blank_in_blanks[OF inv sq, of b] invariantD(1)[OF inv] by (simp add: set_coords len)
    then show "length chs \<le> length (opts sub (gridOf g (blankStack s)) b)"
      using p(3) invariantD(1)[OF inv] by (simp add: chs_def loc_def)
  qed
  have chs': "chs = opts sub (gridOf g (blankStack s)) loc"
    using invariantD(1)[OF inv] by (simp add: chs_def)
  have fo': "framesOk sub g (blankStack s')"
    using invariantD(7)[OF inv] invariantD(1)[OF inv] iloc zloc chne least chs'
    by (simp add: s'_def cf len)
  have dbl'': "distinct (blanksInProcess s')" using dbl' by (simp add: s'_def)
  have "invariant sub g s'"
    unfolding invariant_def by (intro conjI g' co' di' dbl'' bs' ln' fo')
  then show ?thesis
    using pushed cf by (intro exI[where x = s'] exI[where x = f]) (simp add: s'_def)
qed

lemma mark_cases:
  "(case rest of [] \<Rightarrow> [] | t # r \<Rightarrow> t\<lparr>revisited := True\<rparr> # r) = fs'
   \<Longrightarrow> gridOf g fs' = gridOf g rest \<and> framesOk sub g fs' = framesOk sub g rest
     \<and> length fs' = length rest"
  by (cases rest) (auto simp: cur_def)

lemma zeros_put:
  assumes "square n h" "inside n c" "length g = n"
  shows "{x \<in> set (coords (length g)). cell (put h c v) x = 0}
     = (if v = 0 then insert c {x \<in> set (coords (length g)). cell h x = 0}
        else {x \<in> set (coords (length g)). cell h x = 0} - {c})"
proof (rule set_eqI)
  fix x :: coord
  show "x \<in> {x \<in> set (coords (length g)). cell (put h c v) x = 0}
     \<longleftrightarrow> x \<in> (if v = 0 then insert c {x \<in> set (coords (length g)). cell h x = 0}
        else {x \<in> set (coords (length g)). cell h x = 0} - {c})"
  proof (cases "inside n x")
    case True
    then show ?thesis
      using cell_put[OF assms(1,2) True, of v] assms(2,3) by (auto simp: set_coords)
  next
    case False
    then show ?thesis using assms(2,3) by (auto simp: set_coords)
  qed
qed

lemma top_frame_facts:
  assumes inv: "invariant sub g s" and sq: "square n g" and st: "blankStack s = f # rest"
  shows "square n (gridOf g rest)" "inside n (coordinates f)"
    "cell (gridOf g rest) (coordinates f) = 0"
    "grid s = put (gridOf g rest) (coordinates f) (cur f)"
    "cell (grid s) (coordinates f) = cur f" "cur f \<noteq> 0"
    "coordinates f \<in> set (recordsEachDigit s (cur f))"
    "framesOk sub g rest" "0 \<le> index f" "index f < int (length (choices f))"
    "choices f = opts sub (gridOf g rest) (coordinates f)"
proof -
  have fo: "framesOk sub g (f # rest)" using invariantD(7)[OF inv] unfolding st .
  have len: "length g = n" using sq by (simp add: square_def)
  show sq0: "square n (gridOf g rest)" by (rule square_gridOf[OF sq])
  show ic: "inside n (coordinates f)" using fo len by simp
  show "cell (gridOf g rest) (coordinates f) = 0" using fo by simp
  show gs: "grid s = put (gridOf g rest) (coordinates f) (cur f)"
    using invariantD(1)[OF inv] st by simp
  show cc: "cell (grid s) (coordinates f) = cur f"
    unfolding gs using cell_put[OF sq0 ic ic] by simp
  show nz: "cur f \<noteq> 0" by (rule framesOk_cur(3)[OF fo])
  have "inside (length (grid s)) (coordinates f)"
    using ic invariant_square[OF inv sq] by (simp add: square_def)
  then show "coordinates f \<in> set (recordsEachDigit s (cur f))"
    using coherent_recorded[OF invariantD(2)[OF inv] _ cc nz] by simp
  show "framesOk sub g rest" "0 \<le> index f" "index f < int (length (choices f))"
    "choices f = opts sub (gridOf g rest) (coordinates f)"
    using fo unfolding framesOk.simps by blast+
qed

lemma pop_ok:
  assumes inv: "invariant sub g s" and sq: "square n g" and st: "blankStack s = f # rest"
    and atlast: "index f + 1 = int (length (choices f))"
  shows "\<exists>s'. pop s = Inr s' \<and> invariant sub g s'
     \<and> blankStack s' = (case rest of [] \<Rightarrow> [] | t # r \<Rightarrow> t\<lparr>revisited := True\<rparr> # r)"
proof -
  let ?c = "coordinates f" and ?occ = "recordsEachDigit s" and ?h0 = "gridOf g rest"
  note tf = top_frame_facts[OF inv sq st]
  have len: "length g = n" using sq by (simp add: square_def)
  have chne: "choices f \<noteq> []" using tf(9,10) by auto
  have lastcur: "last (choices f) = cur f"
  proof -
    have "nat (index f) = length (choices f) - 1" using atlast by simp
    then show ?thesis using chne by (simp add: cur_def last_conv_nth)
  qed
  define fs' where "fs' = (case rest of [] \<Rightarrow> [] | t # r \<Rightarrow> t\<lparr>revisited := True\<rparr> # r)"
  define s' where "s' = \<lparr>blankStack = fs',
      blanksInProcess = blanksInProcess s @ [?c],
      recordsEachDigit = ?occ(cur f := remove1 ?c (?occ (cur f))),
      grid = put (grid s) ?c 0\<rparr>"
  have popped: "pop s = Inr s'"
    using st chne tf(7) by (simp add: pop_def lastcur s'_def fs'_def)
  note mk = mark_cases[OF fs'_def[symmetric], of g sub]
  have gback: "put (grid s) ?c 0 = ?h0"
    unfolding tf(4) put_put by (rule put_cell_same[OF tf(3)])
  have g': "grid s' = gridOf g (blankStack s')" using gback mk by (simp add: s'_def)
  have sqs: "square n (grid s)" by (rule invariant_square[OF inv sq])
  have co': "coherent (grid s') (recordsEachDigit s')"
    using coherent_erase[OF invariantD(2)[OF inv] sqs tf(2) tf(5) tf(6) invariantD(3)[OF inv]]
    by (simp add: s'_def)
  have di': "\<forall>d. distinct (recordsEachDigit s' d)"
    using invariantD(3)[OF inv] by (simp add: s'_def)
  have notbl: "?c \<notin> set (blanksInProcess s)"
    using invariant_blanks(2)[OF inv sq, of ?c] tf(5,6) by auto
  have dbl': "distinct (blanksInProcess s')"
    using invariantD(4)[OF inv] notbl by (simp add: s'_def)
  have bs': "set (blanksInProcess s') = {c \<in> set (coords (length g)). cell (grid s') c = 0}"
    using invariantD(5)[OF inv] zeros_put[OF sqs tf(2) len, of 0] by (simp add: s'_def)
  have ln': "length (blankStack s') + length (blanksInProcess s') = length (blankSquares g)"
    using invariantD(6)[OF inv] st mk by (simp add: s'_def)
  have fo': "framesOk sub g (blankStack s')" using tf(8) mk by (simp add: s'_def)
  have "invariant sub g s'"
    unfolding invariant_def by (intro conjI g' co' di' dbl' bs' ln' fo')
  then show ?thesis
    using popped by (intro exI[where x = s']) (simp add: s'_def fs'_def)
qed

lemma increment_ok:
  assumes inv: "invariant sub g s" and sq: "square n g" and st: "blankStack s = f # rest"
    and bl: "belowLast f"
  shows "\<exists>s'. increment s = Inr s' \<and> invariant sub g s'
     \<and> blankStack s' = f\<lparr>index := index f + 1\<rparr> # rest"
proof -
  let ?c = "coordinates f" and ?occ = "recordsEachDigit s" and ?h0 = "gridOf g rest"
  note tf = top_frame_facts[OF inv sq st]
  have len: "length g = n" using sq by (simp add: square_def)
  define f' where "f' = f\<lparr>index := index f + 1\<rparr>"
  define d' where "d' = choices f ! nat (index f + 1)"
  define erased where "erased = ?occ(cur f := remove1 ?c (?occ (cur f)))"
  define s' where "s' = \<lparr>blankStack = f' # rest,
      blanksInProcess = blanksInProcess s,
      recordsEachDigit = erased(d' := erased d' @ [?c]),
      grid = put (grid s) ?c d'\<rparr>"
  have inc: "increment s = Inr s'"
    using st bl tf(7) tf(5)
    by (simp add: increment_def Let_def s'_def f'_def d'_def erased_def)
  have curf': "cur f' = d'" by (simp add: cur_def f'_def d'_def)
  have "nat (index f + 1) < length (choices f)" using bl unfolding belowLast_def by linarith
  then have d'in: "d' \<in> set (choices f)" unfolding d'_def by (rule nth_mem)
  then have d'nz: "d' \<noteq> 0"
    using opts_range[of d' sub ?h0 ?c] tf(11) by auto
  have sqs: "square n (grid s)" by (rule invariant_square[OF inv sq])
  have gback: "put (grid s) ?c 0 = ?h0"
    unfolding tf(4) put_put by (rule put_cell_same[OF tf(3)])
  have co0: "coherent ?h0 erased"
    using coherent_erase[OF invariantD(2)[OF inv] sqs tf(2) tf(5) tf(6) invariantD(3)[OF inv]]
    by (simp add: erased_def gback)
  have gnew: "put (grid s) ?c d' = put ?h0 ?c d'" unfolding tf(4) put_put ..
  have g': "grid s' = gridOf g (blankStack s')"
    by (simp add: s'_def gnew curf') (simp add: f'_def)
  have co': "coherent (grid s') (recordsEachDigit s')"
    using coherent_record[OF co0 tf(1) tf(2) tf(3) d'nz] by (simp add: s'_def gnew)
  have di0: "\<And>d. distinct (erased d)" using invariantD(3)[OF inv] by (simp add: erased_def)
  have di': "\<forall>d. distinct (recordsEachDigit s' d)"
    using di0 coherent_not_recorded[OF co0 tf(3) d'nz] by (simp add: s'_def)
  have dbl': "distinct (blanksInProcess s')" using invariantD(4)[OF inv] by (simp add: s'_def)
  have "{x \<in> set (coords (length g)). cell (put ?h0 ?c d') x = 0}
      = {x \<in> set (coords (length g)). cell (put ?h0 ?c (cur f)) x = 0}"
    using zeros_put[OF tf(1) tf(2) len] d'nz tf(6) by simp
  then have bs': "set (blanksInProcess s') = {c \<in> set (coords (length g)). cell (grid s') c = 0}"
    using invariantD(5)[OF inv] by (simp add: s'_def tf(4) put_put)
  have ln': "length (blankStack s') + length (blanksInProcess s') = length (blankSquares g)"
    using invariantD(6)[OF inv] st by (simp add: s'_def)
  have "framesOk sub g (f # rest)" using invariantD(7)[OF inv] unfolding st .
  then have "framesOk sub g (f' # rest)"
    using bl unfolding framesOk.simps belowLast_def f'_def by auto
  then have fo': "framesOk sub g (blankStack s')" by (simp add: s'_def del: framesOk.simps)
  have "invariant sub g s'"
    unfolding invariant_def by (intro conjI g' co' di' dbl' bs' ln' fo')
  then show ?thesis
    using inc by (intro exI[where x = s']) (simp add: s'_def f'_def)
qed

section \<open>One pass of the loop\<close>

lemma blanks_bound:
  assumes inv: "invariant sub g s" and sq: "square n g" and st: "blankStack s = f # rest"
    and b: "b \<in> set (blanksInProcess s)"
  shows "length (choices f) \<le> Suc (length (opts sub (grid s) b))"
proof -
  note tf = top_frame_facts[OF inv sq st]
  have len: "length g = n" using sq by (simp add: square_def)
  have ib: "inside n b" and zb: "cell (grid s) b = 0"
    using invariant_blanks[OF inv sq b] by auto
  have ne: "b \<noteq> coordinates f" using zb tf(5,6) by auto
  then have z0: "cell (gridOf g rest) b = 0"
    using zb cell_put[OF tf(1) tf(2) ib, of "cur f"] by (simp add: tf(4))
  have fo: "framesOk sub g (f # rest)" using invariantD(7)[OF inv] unfolding st .
  have "b \<in> set (coords (length g))" using ib len by (simp add: set_coords)
  then have "length (choices f) \<le> length (opts sub (gridOf g rest) b)"
    using fo z0 unfolding framesOk.simps by blast
  also have "\<dots> \<le> Suc (length (opts sub (put (gridOf g rest) (coordinates f) (cur f)) b))"
    by (rule opts_after_put[OF tf(1) tf(2) ib ne tf(3)])
  finally show ?thesis by (simp add: tf(4))
qed

lemma live_after_top:
  assumes inv: "invariant sub g s" and sq: "square n g" and st: "blankStack s = f # rest"
    and two: "2 \<le> length (choices f)"
  shows "\<forall>b \<in> set (blanksInProcess s). opts sub (grid s) b \<noteq> []"
  using blanks_bound[OF inv sq st] two by fastforce

lemma dead_top_single:
  assumes inv: "invariant sub g s" and sq: "square n g" and st: "blankStack s = f # rest"
    and dead: "\<exists>b \<in> set (blanksInProcess s). opts sub (grid s) b = []"
  shows "index f + 1 = int (length (choices f))"
proof -
  note tf = top_frame_facts[OF inv sq st]
  obtain b where "b \<in> set (blanksInProcess s)" "opts sub (grid s) b = []" using dead by blast
  then have "length (choices f) \<le> 1" using blanks_bound[OF inv sq st, of b] by simp
  then show ?thesis using tf(9,10) by linarith
qed

lemma blanks_nonempty:
  assumes "invariant sub g s" "length (blankStack s) \<noteq> length (blankSquares g)"
  shows "blanksInProcess s \<noteq> []"
  using invariantD(6)[OF assms(1)] assms(2) by auto

lemma iteration_step:
  assumes inv: "invariant sub g s" and sq: "square n g" and ne: "blankStack s \<noteq> []"
    and nf: "length (blankStack s) \<noteq> length (blankSquares g)"
  shows "\<exists>s'. iteration sub s = Inr s' \<and> invariant sub g s'
     \<and> stackStep sub g (blankStack s) (blankStack s')"
proof -
  obtain f rest where st: "blankStack s = f # rest" using ne by (cases "blankStack s") auto
  note tf = top_frame_facts[OF inv sq st]
  have len: "length g = n" using sq by (simp add: square_def)
  have hdf: "hd (blankStack s) = f" by (simp add: st)
  have blne: "blanksInProcess s \<noteq> []" by (rule blanks_nonempty[OF inv nf])
  have pop_case: "\<exists>s'. pop s = Inr s' \<and> invariant sub g s'
       \<and> stackStep sub g (blankStack s) (blankStack s')"
    if atlast: "index f + 1 = int (length (choices f))"
      and why: "revisited f \<or> (\<exists>b \<in> set (blanksInProcess s). opts sub (grid s) b = [])"
  proof -
    obtain s' where s': "pop s = Inr s'" "invariant sub g s'"
      "blankStack s' = (case rest of [] \<Rightarrow> [] | t # r \<Rightarrow> t\<lparr>revisited := True\<rparr> # r)"
      using pop_ok[OF inv sq st atlast] by blast
    have "revisited f \<or> (\<exists>b \<in> set (coords (length g)).
        cell (gridOf g (blankStack s)) b = 0 \<and> opts sub (gridOf g (blankStack s)) b = [])"
      using why invariant_blanks[OF inv sq] invariantD(1)[OF inv] len
      by (auto simp: set_coords)
    then have "stackStep sub g (blankStack s) (blankStack s')"
      unfolding stackStep_def using st s'(3) atlast by auto
    then show ?thesis using s'(1,2) by blast
  qed
  show ?thesis
  proof (cases "revisited f")
    case True
    show ?thesis
    proof (cases "belowLast f")
      case bl: True
      obtain s1 where s1: "increment s = Inr s1" "invariant sub g s1"
        "blankStack s1 = f\<lparr>index := index f + 1\<rparr> # rest"
        using increment_ok[OF inv sq st bl] by blast
      have "length (blankStack s1) \<noteq> length (blankSquares g)" using nf s1(3) st by simp
      then have bl1: "blanksInProcess s1 \<noteq> []" by (rule blanks_nonempty[OF s1(2)])
      have "2 \<le> length (choices (f\<lparr>index := index f + 1\<rparr>))"
        using bl tf(9) by (simp add: belowLast_def)
      then have live: "\<forall>b \<in> set (blanksInProcess s1). opts sub (grid s1) b \<noteq> []"
        by (rule live_after_top[OF s1(2) sq s1(3)])
      obtain s2 f' where s2: "push sub s1 = Inr (True, s2)" "invariant sub g s2"
        "blankStack s2 = f' # blankStack s1" "index f' = 0" "\<not> revisited f'"
        using push_ok[OF s1(2) sq bl1 live] by blast
      have it: "iteration sub s = Inr s2"
        using True bl s1(1) s2(1,3)
        by (simp add: iteration_def hdf incrementPush_def tryToPush_def)
      have "stackStep sub g (blankStack s) (blankStack s2)"
        unfolding stackStep_def using st True bl s2(3,4,5) s1(3) by auto
      then show ?thesis using it s2(2) by blast
    next
      case nbl: False
      then have atlast: "index f + 1 = int (length (choices f))"
        using tf(9,10) by (simp add: belowLast_def)
      have "iteration sub s = pop s" using True nbl by (simp add: iteration_def hdf)
      then show ?thesis using pop_case[OF atlast] True by simp
    qed
  next
    case False
    then have it: "iteration sub s = tryToPush sub s" by (simp add: iteration_def hdf)
    show ?thesis
    proof (cases "\<forall>b \<in> set (blanksInProcess s). opts sub (grid s) b \<noteq> []")
      case True
      obtain s2 f' where s2: "push sub s = Inr (True, s2)" "invariant sub g s2"
        "blankStack s2 = f' # blankStack s" "index f' = 0" "\<not> revisited f'"
        using push_ok[OF inv sq blne True] by blast
      have "stackStep sub g (blankStack s) (blankStack s2)"
        unfolding stackStep_def using st False s2(3,4,5) by auto
      then show ?thesis using it s2(1,2) by (auto simp: tryToPush_def)
    next
      case dead: False
      then have d: "\<exists>b \<in> set (blanksInProcess s). opts sub (grid s) b = []" by blast
      have "push sub s = Inr (False, s)" by (rule push_fail[OF inv sq blne d])
      then have "iteration sub s = pop s" using it by (simp add: tryToPush_def)
      then show ?thesis using pop_case[OF dead_top_single[OF inv sq st d]] d by simp
    qed
  qed
qed

section \<open>The initial state\<close>

lemma cellsOf_square:
  assumes "square n g"
  shows "cellsOf g = map (\<lambda>c. (c, cell g c)) (coords n)"
proof -
  have len: "length g = n" and rows: "\<And>i. i < n \<Longrightarrow> length (g ! i) = n"
    using assms by (auto simp: square_def)
  have "map (\<lambda>i. map (\<lambda>j. ((int i, int j), g ! i ! j)) [0..<length (g ! i)]) [0..<n]
      = map (\<lambda>i. map (\<lambda>c. (c, cell g c)) (map (\<lambda>j. (int i, int j)) [0..<n])) [0..<n]"
    by (rule map_cong[OF refl]) (simp add: rows cell_def)
  then have "cellsOf g
      = concat (map (\<lambda>i. map (\<lambda>c. (c, cell g c)) (map (\<lambda>j. (int i, int j)) [0..<n])) [0..<n])"
    unfolding cellsOf_def len by (rule arg_cong)
  also have "\<dots> = map (\<lambda>c. (c, cell g c)) (coords n)"
    by (simp add: coords_def map_concat comp_def)
  finally show ?thesis .
qed

lemma blankSquares_square:
  assumes "square n g"
  shows "blankSquares g = filter (\<lambda>c. cell g c = 0) (coords n)"
  by (simp add: blankSquares_def cellsOf_square[OF assms] filter_map comp_def)

lemma occurrences_fold:
  "foldl (\<lambda>result (c, v). if v \<noteq> 0 then result(v := result v @ [c]) else result) acc xs d
     = (if d \<noteq> 0 then acc d @ map fst (filter (\<lambda>(c, v). v = d) xs) else acc d)"
  by (induction xs arbitrary: acc) (auto split: prod.splits)

lemma occurrences_square:
  assumes "square n g" "d \<noteq> 0"
  shows "occurrences g d = filter (\<lambda>c. cell g c = d) (coords n)"
  using assms(2)
  by (simp add: occurrences_def occurrences_fold cellsOf_square[OF assms(1)] filter_map comp_def)

lemma occurrences_zero: "occurrences g 0 = []"
  by (simp add: occurrences_def occurrences_fold)

lemma invariant_initial:
  assumes sq: "square n g"
  shows "invariant sub g (initial g)"
proof -
  have len: "length g = n" using sq by (simp add: square_def)
  have co: "coherent g (occurrences g)"
    by (rule coherentI) (simp add: occurrences_square[OF sq] set_coords len)
  have di: "\<forall>d. distinct (occurrences g d)"
  proof
    fix d show "distinct (occurrences g d)"
      by (cases "d = 0") (simp_all add: occurrences_zero occurrences_square[OF sq] distinct_coords)
  qed
  show ?thesis
    unfolding invariant_def initial_def
    using co di by (simp add: blankSquares_square[OF sq] distinct_coords len)
qed

section \<open>Progress and termination of the loop\<close>

lemma length_opts_le: "length (opts sub h c) \<le> length h"
proof -
  have "length (opts sub h c) \<le> length (map int [1..<length h + 1])"
    unfolding opts_def by (rule length_filter_le)
  then show ?thesis by (simp del: upt_Suc)
qed

lemma framesOk_index_bound:
  "framesOk sub g fs \<Longrightarrow> f \<in> set fs \<Longrightarrow> 0 \<le> index f \<and> index f < int (length g)"
proof (induction fs)
  case Nil
  then show ?case by simp
next
  case (Cons a fs)
  have "0 \<le> index a \<and> index a < int (length (opts sub (gridOf g fs) (coordinates a)))"
    using Cons.prems(1) unfolding framesOk.simps by metis
  moreover have "length (opts sub (gridOf g fs) (coordinates a)) \<le> length g"
    using length_opts_le[of sub "gridOf g fs" "coordinates a"] by simp
  ultimately have "0 \<le> index a \<and> index a < int (length g)" by linarith
  moreover have "framesOk sub g fs" using Cons.prems(1) unfolding framesOk.simps by blast
  ultimately show ?case using Cons.IH Cons.prems(2) by auto
qed

lemma framesOk_weight:
  assumes "framesOk sub g fs" "f \<in> set fs"
  shows "2 * nat (index f) + 2 < 2 * length g + 2"
  using framesOk_index_bound[OF assms] by linarith

lemma valBelow_bound:
  assumes "\<forall>f \<in> set fs. 2 * nat (index f) + 2 < B" "length fs \<le> D"
  shows "valBelow B D fs + B ^ (D + 1 - length fs) \<le> B ^ (D + 1)"
  using assms
proof (induction fs)
  case Nil
  then show ?case by simp
next
  case (Cons f fs)
  let ?p = "length fs"
  have p: "Suc ?p \<le> D" using Cons.prems(2) by simp
  have w: "2 * nat (index f) + 2 \<le> B" using Cons.prems(1) by simp
  have e: "D + 1 - ?p = Suc (D - ?p)" using p by simp
  have "valBelow B D (f # fs) + B ^ (D + 1 - length (f # fs))
      = (2 * nat (index f) + 2) * B ^ (D - ?p) + valBelow B D fs"
    by (simp add: algebra_simps)
  also have "\<dots> \<le> B * B ^ (D - ?p) + valBelow B D fs"
    by (intro add_mono mult_le_mono1 w order_refl)
  also have "\<dots> = valBelow B D fs + B ^ (D + 1 - ?p)" unfolding e by simp
  also have "\<dots> \<le> B ^ (D + 1)" using Cons.IH Cons.prems p by simp
  finally show ?case .
qed

lemma valStack_bound:
  assumes "\<forall>f \<in> set fs. 2 * nat (index f) + 2 < B" "length fs \<le> D"
  shows "valStack B D fs \<le> B ^ (D + 1)"
proof (cases fs)
  case Nil
  then show ?thesis by simp
next
  case (Cons f rest)
  let ?p = "length rest"
  have p: "Suc ?p \<le> D" using assms(2) Cons by simp
  have w: "2 * nat (index f) + 2 \<le> B" using assms(1) Cons by simp
  have e: "D + 1 - ?p = Suc (D - ?p)" using p by simp
  have "valStack B D fs \<le> (2 * nat (index f) + 2) * B ^ (D - ?p) + valBelow B D rest"
    by (simp add: Cons algebra_simps)
  also have "\<dots> \<le> B * B ^ (D - ?p) + valBelow B D rest"
    by (intro add_mono mult_le_mono1 w order_refl)
  also have "\<dots> = valBelow B D rest + B ^ (D + 1 - ?p)" unfolding e by simp
  also have "\<dots> \<le> B ^ (D + 1)"
    by (rule valBelow_bound) (use assms Cons in auto)
  finally show ?thesis .
qed

lemma valStack_step:
  assumes step: "stackStep sub g fs fs'" and ne: "fs' \<noteq> []"
    and l': "length fs' \<le> D" and l: "length fs \<le> D"
    and w: "\<forall>f \<in> set fs. 0 \<le> index f \<and> 2 * nat (index f) + 2 < B"
  shows "valStack B D fs < valStack B D fs'"
proof -
  obtain f rest where fs: "fs = f # rest" and cases:
    "(\<not> revisited f \<and> (\<exists>f'. fs' = f' # fs \<and> index f' = 0 \<and> \<not> revisited f'))
     \<or> (revisited f \<and> belowLast f
         \<and> (\<exists>f'. fs' = f' # f\<lparr>index := index f + 1\<rparr> # rest \<and> index f' = 0 \<and> \<not> revisited f'))
     \<or> (index f + 1 = int (length (choices f))
         \<and> fs' = (case rest of [] \<Rightarrow> [] | t # r \<Rightarrow> t\<lparr>revisited := True\<rparr> # r))"
    using step unfolding stackStep_def by blast
  have Bpos: "0 < B" using w fs by auto
  have i0: "0 \<le> index f" and wf: "2 * nat (index f) + 2 < B" using w fs by auto
  let ?p = "length rest"
  from cases show ?thesis
  proof (elim disjE conjE exE)
    fix f' assume nr: "\<not> revisited f" and fs': "fs' = f' # fs" and i': "index f' = 0"
      and r': "\<not> revisited f'"
    have "valStack B D fs' = B ^ (D - Suc ?p) + valStack B D fs"
      using nr i' r' by (simp add: fs' fs)
    then show ?thesis using Bpos by simp
  next
    fix f' assume rv: "revisited f" and fs': "fs' = f' # f\<lparr>index := index f + 1\<rparr> # rest"
      and i': "index f' = 0" and r': "\<not> revisited f'"
    have n: "nat (index f + 1) = Suc (nat (index f))" using i0 by simp
    have "valStack B D fs' = B ^ (D - Suc ?p)
        + (2 * nat (index f + 1) + 1) * B ^ (D - ?p) + valBelow B D rest"
      using i' r' by (simp add: fs')
    also have "\<dots> = B ^ (D - Suc ?p) + B ^ (D - ?p) + valStack B D fs"
      unfolding n using rv by (simp add: fs algebra_simps)
    finally have "valStack B D fs' = B ^ (D - Suc ?p) + B ^ (D - ?p) + valStack B D fs" .
    then show ?thesis using Bpos by simp
  next
    assume fs': "fs' = (case rest of [] \<Rightarrow> [] | t # r \<Rightarrow> t\<lparr>revisited := True\<rparr> # r)"
    then obtain t r where rest: "rest = t # r" and fs'': "fs' = t\<lparr>revisited := True\<rparr> # r"
      using ne by (cases rest) auto
    let ?q = "length r"
    have q: "Suc (Suc ?q) \<le> D" using l by (simp add: fs rest)
    have e: "D - ?q = Suc (D - Suc ?q)" using q by simp
    have "valStack B D fs \<le> (2 * nat (index f) + 2) * B ^ (D - Suc ?q)
        + (2 * nat (index t) + 1) * B ^ (D - ?q) + valBelow B D r"
      by (simp add: fs rest algebra_simps)
    also have "\<dots> < B * B ^ (D - Suc ?q) + (2 * nat (index t) + 1) * B ^ (D - ?q)
        + valBelow B D r"
      by (intro add_strict_right_mono mult_less_mono1 wf) (use Bpos in simp)
    also have "\<dots> = (2 * nat (index t) + 2) * B ^ (D - ?q) + valBelow B D r"
      by (simp add: e algebra_simps)
    also have "\<dots> = valStack B D fs'" by (simp add: fs'')
    finally show ?thesis .
  qed
qed

lemma loop_total:
  assumes sq: "square n g"
    and P_step: "\<And>fs fs'. framesOk sub g fs \<Longrightarrow> P fs \<Longrightarrow> stackStep sub g fs fs' \<Longrightarrow> P fs'"
  shows "invariant sub g s \<Longrightarrow> P (blankStack s) \<Longrightarrow>
     \<exists>r s'. backtrackLoop sub (length (blankSquares g)) s = Some (Inr (r, s'))
       \<and> invariant sub g s' \<and> P (blankStack s')
       \<and> (if blankStack s' = [] then r = []
          else r = grid s' \<and> length (blankStack s') = length (blankSquares g))"
proof (induction "(2 * length g + 2) ^ (length (blankSquares g) + 1)
    - valStack (2 * length g + 2) (length (blankSquares g)) (blankStack s)"
    arbitrary: s rule: less_induct)
  case less
  let ?B = "2 * length g + 2" and ?D = "length (blankSquares g)"
  note inv = less.prems(1) and P = less.prems(2)
  show ?case
  proof (cases "blankStack s = []")
    case True
    then show ?thesis using inv P by (subst backtrackLoop.simps) simp
  next
    case ne: False
    show ?thesis
    proof (cases "length (blankStack s) = ?D")
      case True
      then show ?thesis using inv P ne by (subst backtrackLoop.simps) simp
    next
      case nf: False
      obtain s' where s': "iteration sub s = Inr s'" "invariant sub g s'"
        "stackStep sub g (blankStack s) (blankStack s')"
        using iteration_step[OF inv sq ne nf] by blast
      have P': "P (blankStack s')" by (rule P_step[OF invariantD(7)[OF inv] P s'(3)])
      have unfold: "backtrackLoop sub ?D s = backtrackLoop sub ?D s'"
        using ne nf s'(1) by (subst backtrackLoop.simps) simp
      show ?thesis
      proof (cases "blankStack s' = []")
        case True
        then show ?thesis
          unfolding unfold using s'(2) P' by (subst backtrackLoop.simps) simp
      next
        case ne': False
        have l: "length (blankStack s) \<le> ?D" using invariantD(6)[OF inv] by simp
        have l': "length (blankStack s') \<le> ?D" using invariantD(6)[OF s'(2)] by simp
        have w: "\<forall>f \<in> set (blankStack s). 0 \<le> index f \<and> 2 * nat (index f) + 2 < ?B"
          using framesOk_index_bound[OF invariantD(7)[OF inv]]
            framesOk_weight[OF invariantD(7)[OF inv]] by blast
        have w': "\<forall>f \<in> set (blankStack s'). 2 * nat (index f) + 2 < ?B"
          using framesOk_weight[OF invariantD(7)[OF s'(2)]] by blast
        have up: "valStack ?B ?D (blankStack s) < valStack ?B ?D (blankStack s')"
          by (rule valStack_step[OF s'(3) ne' l' l w])
        have bd: "valStack ?B ?D (blankStack s') \<le> ?B ^ (?D + 1)"
          by (rule valStack_bound[OF w' l'])
        have "?B ^ (?D + 1) - valStack ?B ?D (blankStack s')
            < ?B ^ (?D + 1) - valStack ?B ?D (blankStack s)"
          using up bd by linarith
        then show ?thesis
          unfolding unfold using less.hyps[OF _ s'(2) P'] by blast
      qed
    qed
  qed
qed

section \<open>The grid of a valid stack\<close>

lemma sharesUnit_sym: "sharesUnit sub c c' = sharesUnit sub c' c"
  by (auto simp: sharesUnit_def)

lemma conflictFreeD:
  assumes "conflictFree sub h" "length h = n" "inside n c" "inside n c'" "c \<noteq> c'"
    "cell h c \<noteq> 0" "sharesUnit sub c c'"
  shows "cell h c' \<noteq> cell h c"
  using assms unfolding conflictFree_def set_coords by blast

lemma conflictFreeI:
  assumes "length h = n"
    "\<And>c c'. inside n c \<Longrightarrow> inside n c' \<Longrightarrow> c \<noteq> c' \<Longrightarrow> cell h c \<noteq> 0
       \<Longrightarrow> sharesUnit sub c c' \<Longrightarrow> cell h c' \<noteq> cell h c"
  shows "conflictFree sub h"
  using assms unfolding conflictFree_def set_coords by blast

lemma legalD:
  assumes "legal sub h c d" "length h = n" "inside n c'" "cell h c' = d"
  shows "consistent c c' sub"
  using assms unfolding legal_def set_coords by blast

lemma extendsD:
  assumes "extends sol h" "length h = n" "inside n c" "cell h c \<noteq> 0"
  shows "cell sol c = cell h c"
  using assms unfolding extends_def set_coords by blast

lemma extendsI:
  assumes "length h = n" "\<And>c. inside n c \<Longrightarrow> cell h c \<noteq> 0 \<Longrightarrow> cell sol c = cell h c"
  shows "extends sol h"
  using assms unfolding extends_def set_coords by blast

lemma conflictFree_put:
  assumes cf: "conflictFree sub h" and sq: "square n h" and pos: "0 < sub"
    and ic: "inside n c" and lg: "legal sub h c d"
  shows "conflictFree sub (put h c d)"
proof (rule conflictFreeI[where n = n])
  show "length (put h c d) = n" using sq by (simp add: square_def)
next
  fix x y assume ix: "inside n x" and iy: "inside n y" and ne: "x \<noteq> y"
    and nz: "cell (put h c d) x \<noteq> 0" and su: "sharesUnit sub x y"
  have len: "length h = n" using sq by (simp add: square_def)
  note cx = cell_put[OF sq ic ix, of d] and cy = cell_put[OF sq ic iy, of d]
  show "cell (put h c d) y \<noteq> cell (put h c d) x"
  proof (cases "x = c")
    case True
    then have yc: "y \<noteq> c" using ne by simp
    show ?thesis
    proof
      assume "cell (put h c d) y = cell (put h c d) x"
      then have "cell h y = d" using cx cy True yc by simp
      then have "consistent c y sub" by (rule legalD[OF lg len iy])
      then show False
        using consistent_sharesUnit[OF pos ic iy] su True ne by simp
    qed
  next
    case xc: False
    show ?thesis
    proof (cases "y = c")
      case True
      show ?thesis
      proof
        assume "cell (put h c d) y = cell (put h c d) x"
        then have "cell h x = d" using cx cy True xc by simp
        then have "consistent c x sub" by (rule legalD[OF lg len ix])
        then show False
          using consistent_sharesUnit[OF pos ic ix] su True xc sharesUnit_sym[of sub x c]
          by auto
      qed
    next
      case False
      then show ?thesis
        using conflictFreeD[OF cf len ix iy ne _ su] nz cx cy xc by simp
    qed
  qed
qed

lemma gridOf_props:
  assumes sq: "square n g" and pos: "0 < sub" and cf: "conflictFree sub g"
    and rg: "\<And>c. inside n c \<Longrightarrow> 0 \<le> cell g c \<and> cell g c \<le> int n"
    and fo: "framesOk sub g fs"
  shows "conflictFree sub (gridOf g fs) \<and> extends (gridOf g fs) g
     \<and> (\<forall>c. inside n c \<longrightarrow> 0 \<le> cell (gridOf g fs) c \<and> cell (gridOf g fs) c \<le> int n)"
  using fo
proof (induction fs)
  case Nil
  show ?case using cf rg by (simp add: extends_def)
next
  case (Cons f fs)
  let ?h = "gridOf g fs" and ?c = "coordinates f"
  have len: "length g = n" using sq by (simp add: square_def)
  have fo': "framesOk sub g fs" using Cons.prems unfolding framesOk.simps by blast
  note IH = Cons.IH[OF fo']
  have sqh: "square n ?h" by (rule square_gridOf[OF sq])
  have ic: "inside n ?c" and z: "cell ?h ?c = 0"
    using Cons.prems len unfolding framesOk.simps by auto
  note cu = framesOk_cur[OF Cons.prems]
  have a: "conflictFree sub (gridOf g (f # fs))"
    using conflictFree_put[OF _ sqh pos ic cu(4)] IH by simp
  have b: "extends (gridOf g (f # fs)) g"
  proof (rule extendsI[OF len])
    fix x assume ix: "inside n x" and nz: "cell g x \<noteq> 0"
    have "cell ?h x = cell g x" using IH extendsD[OF _ len ix nz] by blast
    then have "x \<noteq> ?c" using z nz by auto
    then show "cell (gridOf g (f # fs)) x = cell g x"
      using cell_put[OF sqh ic ix, of "cur f"] \<open>cell ?h x = cell g x\<close> by simp
  qed
  have c: "\<forall>x. inside n x \<longrightarrow> 0 \<le> cell (gridOf g (f # fs)) x \<and> cell (gridOf g (f # fs)) x \<le> int n"
  proof (intro allI impI)
    fix x assume ix: "inside n x"
    have "0 \<le> cell ?h x \<and> cell ?h x \<le> int n" using IH ix by blast
    then show "0 \<le> cell (gridOf g (f # fs)) x \<and> cell (gridOf g (f # fs)) x \<le> int n"
      using cell_put[OF sqh ic ix, of "cur f"] cu(1,2) len by (cases "x = ?c") simp_all
  qed
  show ?case using a b c by blast
qed

lemma wellFormed_facts:
  assumes "wellFormed sub g"
  shows "square (length g) g" "0 < sub" "conflictFree sub g" "0 < length g"
    "\<And>c. inside (length g) c \<Longrightarrow> 0 \<le> cell g c \<and> cell g c \<le> int (length g)"
proof -
  show sq: "square (length g) g" using assms by (simp add: wellFormed_def square_def)
  show pos: "0 < sub" and "conflictFree sub g" using assms by (simp_all add: wellFormed_def)
  have "int (length g) = sub * sub" using assms by (simp add: wellFormed_def)
  then show "0 < length g" using pos by (metis mult_pos_pos of_nat_0_less_iff)
  fix c assume ic: "inside (length g) c"
  have r: "nat (fst c) < length g" using ic unfolding inside_def by linarith
  then have row: "g ! nat (fst c) \<in> set g" by simp
  moreover have "nat (snd c) < length g" using ic unfolding inside_def by linarith
  ultimately have "nat (snd c) < length (g ! nat (fst c))"
    using sq by (simp add: square_def)
  then have "cell g c \<in> set (g ! nat (fst c))" unfolding cell_def by (rule nth_mem)
  then show "0 \<le> cell g c \<and> cell g c \<le> int (length g)"
    using assms row unfolding wellFormed_def by blast
qed

lemma full_stack_completion:
  assumes wf: "wellFormed sub g" and inv: "invariant sub g s" and bl: "blanksInProcess s = []"
  shows "completion sub g (grid s)"
proof -
  let ?n = "length g"
  note w = wellFormed_facts[OF wf]
  have pr: "conflictFree sub (grid s)" "extends (grid s) g"
    "\<And>c. inside ?n c \<Longrightarrow> 0 \<le> cell (grid s) c \<and> cell (grid s) c \<le> int ?n"
    using gridOf_props[OF w(1,2,3) w(5) invariantD(7)[OF inv]] invariantD(1)[OF inv] by auto
  have sqs: "square ?n (grid s)" by (rule invariant_square[OF inv w(1)])
  have nz: "\<And>c. inside ?n c \<Longrightarrow> cell (grid s) c \<noteq> 0"
    using invariantD(5)[OF inv] bl by (auto simp: set_coords)
  have "filled (grid s)"
    unfolding filled_def
  proof
    fix c assume "c \<in> set (coords (length (grid s)))"
    then have ic: "inside ?n c" using sqs by (simp add: set_coords square_def)
    show "1 \<le> cell (grid s) c \<and> cell (grid s) c \<le> int (length (grid s))"
      using pr(3)[OF ic] nz[OF ic] sqs by (simp add: square_def)
  qed
  then show ?thesis unfolding completion_def using sqs pr(1,2) by simp
qed

lemma completion_legal:
  assumes sol: "square n sol" "filled sol" "conflictFree sub sol"
    and ex: "extends sol h" and len: "length h = n" and pos: "0 < sub" and ib: "inside n b"
  shows "cell sol b \<in> set (opts sub h b)"
proof -
  have ls: "length sol = n" using sol(1) by (simp add: square_def)
  have "1 \<le> cell sol b \<and> cell sol b \<le> int n"
    using sol(2) ib ls unfolding filled_def set_coords by blast
  then have rg: "1 \<le> cell sol b" "cell sol b \<le> int n" by simp_all
  have "legal sub h b (cell sol b)"
    unfolding legal_def
  proof (intro ballI impI)
    fix c' assume "c' \<in> set (coords (length h))" and eq: "cell h c' = cell sol b"
    then have ic': "inside n c'" using len by (simp add: set_coords)
    have "cell h c' \<noteq> 0" using eq rg by simp
    then have same: "cell sol c' = cell sol b" using extendsD[OF ex len ic'] eq by simp
    show "consistent b c' sub"
    proof (cases "b = c'")
      case True
      then show ?thesis by (simp add: consistent_def)
    next
      case False
      have "\<not> sharesUnit sub b c'"
        using conflictFreeD[OF sol(3) ls ib ic' False] rg same by auto
      then show ?thesis using consistent_sharesUnit[OF pos ib ic'] by simp
    qed
  qed
  then show ?thesis using rg len by (intro opts_member) simp_all
qed

lemma extends_put:
  assumes "square n h" "inside n c" "extends sol h" "cell sol c = v"
  shows "extends sol (put h c v)"
proof (rule extendsI[where n = n])
  show "length (put h c v) = n" using assms(1) by (simp add: square_def)
next
  fix x assume ix: "inside n x" and nz: "cell (put h c v) x \<noteq> 0"
  have len: "length h = n" using assms(1) by (simp add: square_def)
  show "cell sol x = cell (put h c v) x"
    using cell_put[OF assms(1,2) ix, of v] nz assms(4) extendsD[OF assms(3) len ix]
    by (cases "x = c") auto
qed

section \<open>What the search has excluded\<close>

lemma completionD:
  assumes "completion sub g sol"
  shows "square (length g) sol" "filled sol" "extends sol g" "conflictFree sub sol"
  using assms by (simp_all add: completion_def)

lemma dead_blank_no_extension:
  assumes sol: "completion sub g sol" and pos: "0 < sub" and len: "length h = length g"
    and b: "b \<in> set (coords (length g))" and dead: "opts sub h b = []"
  shows "\<not> extends sol h"
proof
  assume ex: "extends sol h"
  have "inside (length g) b" using b by (simp add: set_coords)
  then have "cell sol b \<in> set (opts sub h b)"
    by (rule completion_legal[OF completionD(1,2,4)[OF sol] ex len pos])
  then show False using dead by simp
qed

lemma frame_value_of_completion:
  assumes sol: "completion sub g sol" and sq: "square n g" and pos: "0 < sub"
    and fo: "framesOk sub g (f # rest)" and ex: "extends sol (gridOf g rest)"
  shows "cell sol (coordinates f) \<in> set (choices f)"
proof -
  have len: "length g = n" using sq by (simp add: square_def)
  have ic: "inside (length g) (coordinates f)" using fo unfolding framesOk.simps by blast
  have ch: "choices f = opts sub (gridOf g rest) (coordinates f)"
    using fo unfolding framesOk.simps by blast
  show ?thesis
    unfolding ch
    by (rule completion_legal[OF completionD(1,2,4)[OF sol] ex _ pos ic]) simp
qed

lemma searched_step:
  assumes sq: "square n g" and pos: "0 < sub" and fo: "framesOk sub g fs"
    and se: "searched sub g fs" and step: "stackStep sub g fs fs'"
  shows "searched sub g fs'"
  unfolding searched_def
proof (intro allI impI)
  fix sol assume sol: "completion sub g sol"
  have len: "length g = n" using sq by (simp add: square_def)
  have ex: "explored g sol fs"
    and rv: "fs = [] \<or> revisited (hd fs) \<Longrightarrow> \<not> extends sol (gridOf g fs)"
    using se sol unfolding searched_def by blast+
  obtain f rest where fs: "fs = f # rest" and cases:
    "(\<not> revisited f \<and> (\<exists>f'. fs' = f' # fs \<and> index f' = 0 \<and> \<not> revisited f'))
     \<or> (revisited f \<and> belowLast f
         \<and> (\<exists>f'. fs' = f' # f\<lparr>index := index f + 1\<rparr> # rest \<and> index f' = 0 \<and> \<not> revisited f'))
     \<or> (index f + 1 = int (length (choices f))
         \<and> fs' = (case rest of [] \<Rightarrow> [] | t # r \<Rightarrow> t\<lparr>revisited := True\<rparr> # r)
         \<and> (revisited f
             \<or> (\<exists>b \<in> set (coords (length g)).
                   cell (gridOf g fs) b = 0 \<and> opts sub (gridOf g fs) b = [])))"
    using step unfolding stackStep_def by blast
  have fo': "framesOk sub g (f # rest)" using fo unfolding fs .
  let ?c = "coordinates f" and ?h0 = "gridOf g rest"
  have sq0: "square n ?h0" by (rule square_gridOf[OF sq])
  have ic: "inside n ?c" using fo' len unfolding framesOk.simps by blast
  have i0: "0 \<le> index f" and il: "index f < int (length (choices f))"
    using fo' unfolding framesOk.simps by blast+
  have exr: "explored g sol rest"
    and before: "extends sol ?h0 \<Longrightarrow> cell sol ?c \<notin> set (take (nat (index f)) (choices f))"
    using ex unfolding fs explored.simps by blast+
  consider (push) f' where "fs' = f' # fs" "index f' = 0" "\<not> revisited f'"
    | (incr) f' where "revisited f" "belowLast f"
        "fs' = f' # f\<lparr>index := index f + 1\<rparr> # rest" "index f' = 0" "\<not> revisited f'"
    | (pop) "index f + 1 = int (length (choices f))"
        "fs' = (case rest of [] \<Rightarrow> [] | t # r \<Rightarrow> t\<lparr>revisited := True\<rparr> # r)"
        "revisited f \<or> (\<exists>b \<in> set (coords (length g)).
                   cell (gridOf g fs) b = 0 \<and> opts sub (gridOf g fs) b = [])"
    using cases by blast
  then show "explored g sol fs'
      \<and> (fs' = [] \<or> revisited (hd fs') \<longrightarrow> \<not> extends sol (gridOf g fs'))" (is ?goal)
  proof cases
    case push
    then show ?goal using ex by simp
  next
    case incr
    note rf = incr(1) and bl = incr(2) and fs' = incr(3) and i' = incr(4) and r' = incr(5)
    have notcur: "\<not> extends sol (put ?h0 ?c (cur f))" using rv rf by (simp add: fs)
    have n: "nat (index f + 1) = Suc (nat (index f))" using i0 by simp
    have lt: "nat (index f) < length (choices f)" using i0 il by linarith
    have "cell sol ?c \<notin> set (take (nat (index f + 1)) (choices f))" if e0: "extends sol ?h0"
    proof -
      have "cell sol ?c \<noteq> cur f" using extends_put[OF sq0 ic e0] notcur by blast
      then show ?thesis
        unfolding n take_Suc_conv_app_nth[OF lt] using before[OF e0] by (simp add: cur_def)
    qed
    then have "explored g sol (f\<lparr>index := index f + 1\<rparr> # rest)"
      using exr by (simp add: cur_def)
    then show ?goal using i' r' by (simp add: fs')
  next
    case pop
    note atlast = pop(1) and fs' = pop(2) and why = pop(3)
    have mk: "gridOf g fs' = ?h0" and exm: "explored g sol fs' = explored g sol rest"
      unfolding fs' by (cases rest; simp add: cur_def)+
    have "\<not> extends sol ?h0"
    proof
      assume e0: "extends sol ?h0"
      have inch: "cell sol ?c \<in> set (choices f)"
        by (rule frame_value_of_completion[OF sol sq pos fo' e0])
      have chne: "choices f \<noteq> []" using il i0 by auto
      have "nat (index f) = length (choices f) - 1" using atlast by linarith
      then have tk: "take (nat (index f)) (choices f) = butlast (choices f)"
        by (simp add: butlast_conv_take)
      have lastcur: "last (choices f) = cur f"
        using \<open>nat (index f) = length (choices f) - 1\<close> chne by (simp add: cur_def last_conv_nth)
      have "set (choices f) = set (butlast (choices f)) \<union> {last (choices f)}"
        using chne by (metis append_butlast_last_id list.simps(15) set_append Un_insert_right
            sup_bot.right_neutral empty_set)
      then have "cell sol ?c = cur f" using inch before[OF e0] tk lastcur by auto
      then have ecur: "extends sol (gridOf g fs)"
        using extends_put[OF sq0 ic e0] by (simp add: fs)
      from why show False
      proof
        assume "revisited f"
        then show False using rv ecur by (simp add: fs)
      next
        assume "\<exists>b \<in> set (coords (length g)).
                   cell (gridOf g fs) b = 0 \<and> opts sub (gridOf g fs) b = []"
        then obtain b where b: "b \<in> set (coords (length g))" "opts sub (gridOf g fs) b = []"
          by blast
        have "\<not> extends sol (gridOf g fs)"
          by (rule dead_blank_no_extension[OF sol pos _ b]) simp
        then show False using ecur by simp
      qed
    qed
    then show ?goal using exr mk exm by simp
  qed
qed

lemma first_push:
  assumes sq: "square n g" and pos: "0 < sub" and ne: "blankSquares g \<noteq> []"
  shows "\<exists>pushed s1. push sub (initial g) = Inr (pushed, s1) \<and> invariant sub g s1
     \<and> searched sub g (blankStack s1) \<and> length (blankStack s1) \<le> 1"
proof -
  have inv: "invariant sub g (initial g)" by (rule invariant_initial[OF sq])
  have bl: "blanksInProcess (initial g) \<noteq> []" using ne by (simp add: initial_def)
  have len: "length g = n" using sq by (simp add: square_def)
  show ?thesis
  proof (cases "\<forall>b \<in> set (blanksInProcess (initial g)). opts sub (grid (initial g)) b \<noteq> []")
    case True
    obtain s1 f where s1: "push sub (initial g) = Inr (True, s1)" "invariant sub g s1"
      "blankStack s1 = f # blankStack (initial g)" "index f = 0" "\<not> revisited f"
      using push_ok[OF inv sq bl True] by blast
    have "searched sub g (blankStack s1)"
      unfolding searched_def using s1(3,4,5) by (simp add: initial_def)
    then show ?thesis using s1 by (auto simp: initial_def)
  next
    case False
    then obtain b where b: "b \<in> set (blanksInProcess (initial g))"
      "opts sub (grid (initial g)) b = []" by blast
    have p: "push sub (initial g) = Inr (False, initial g)"
      by (rule push_fail[OF inv sq bl]) (use b in blast)
    have bc: "b \<in> set (coords (length g))"
      using invariant_blanks(1)[OF inv sq b(1)] len by (simp add: set_coords)
    have "searched sub g []"
      unfolding searched_def
    proof (intro allI impI)
      fix sol assume sol: "completion sub g sol"
      have "opts sub g b = []" using b(2) by (simp add: initial_def)
      then have "\<not> extends sol g"
        by (intro dead_blank_no_extension[OF sol pos _ bc]) simp_all
      then show "explored g sol [] \<and> ([] = [] \<or> revisited (hd []) \<longrightarrow> \<not> extends sol (gridOf g []))"
        by simp
    qed
    then show ?thesis using p inv by (auto simp: initial_def)
  qed
qed

text \<open>The run as a whole.\<close>

lemma backtrack_total:
  assumes wf: "wellFormed sub g"
  shows "\<exists>r s. backtrack sub g = Some (Inr (r, s)) \<and> invariant sub g s
     \<and> ((r = [] \<and> blankStack s = [] \<and> blanksInProcess s \<noteq> [] \<and> searched sub g [])
        \<or> (r = grid s \<and> blanksInProcess s = []))"
proof -
  note w = wellFormed_facts[OF wf]
  let ?D = "length (blankSquares g)"
  show ?thesis
  proof (cases "blankSquares g = []")
    case True
    have "backtrack sub g = Some (Inr (g, initial g))"
      using True by (simp add: backtrack_def initial_def)
    moreover have "invariant sub g (initial g)" by (rule invariant_initial[OF w(1)])
    ultimately show ?thesis using True by (simp add: initial_def)
  next
    case False
    obtain pushed s1 where s1: "push sub (initial g) = Inr (pushed, s1)" "invariant sub g s1"
      "searched sub g (blankStack s1)"
      using first_push[OF w(1,2) False] by blast
    have bt: "backtrack sub g = backtrackLoop sub ?D s1"
      using False s1(1) by (simp add: backtrack_def Let_def initial_def)
    have step: "\<And>fs fs'. framesOk sub g fs \<Longrightarrow> searched sub g fs
        \<Longrightarrow> stackStep sub g fs fs' \<Longrightarrow> searched sub g fs'"
      by (rule searched_step[OF w(1,2)])
    obtain r s' where r: "backtrackLoop sub ?D s1 = Some (Inr (r, s'))" "invariant sub g s'"
      "searched sub g (blankStack s')"
      "if blankStack s' = [] then r = [] else r = grid s' \<and> length (blankStack s') = ?D"
    proof -
      have "\<exists>r s'. backtrackLoop sub ?D s1 = Some (Inr (r, s')) \<and> invariant sub g s'
          \<and> searched sub g (blankStack s')
          \<and> (if blankStack s' = [] then r = []
              else r = grid s' \<and> length (blankStack s') = ?D)"
        by (rule loop_total[where P = "searched sub g", OF w(1) _ s1(2,3)])
           (rule step; assumption)
      then show ?thesis using that by blast
    qed
    show ?thesis
    proof (cases "blankStack s' = []")
      case True
      then have "blanksInProcess s' \<noteq> []" using invariantD(6)[OF r(2)] False by auto
      then show ?thesis using bt r True by auto
    next
      case ne: False
      then have "blanksInProcess s' = []" using invariantD(6)[OF r(2)] r(4) by auto
      then show ?thesis using bt r ne by auto
    qed
  qed
qed

section \<open>The solver is sound, complete and terminating\<close>

lemma result_with_state:
  "map_option (map_sum id fst) x = Some (Inr r) \<Longrightarrow> \<exists>s. x = Some (Inr (r, s))"
  by (cases x) (auto simp: map_sum_def split: sum.splits)

lemma searchGrid_run:
  "\<exists>s. backtrack 2 searchGrid = Some (Inr (searchGridSolved, s))"
proof -
  have "map_option (map_sum id fst) (backtrack 2 searchGrid) = Some (Inr searchGridSolved)"
    by code_simp
  then show ?thesis by (rule result_with_state)
qed

lemma unsolvableGrid_run:
  "\<exists>s. backtrack 2 unsolvableGrid = Some (Inr ([], s))"
proof -
  have "map_option (map_sum id fst) (backtrack 2 unsolvableGrid) = Some (Inr [])"
    by code_simp
  then show ?thesis by (rule result_with_state)
qed

lemma wellFormed_examples:
  "wellFormed 2 searchGrid" "wellFormed 2 unsolvableGrid" "wellFormed 2 deadEndGrid"
  "wellFormed 2 uniqueGrid"
  by code_simp+

lemma empty_result_no_completion:
  assumes wf: "wellFormed sub g" and run: "backtrack sub g = Some (Inr ([], s))"
  shows "\<not> completion sub g sol"
proof
  assume sol: "completion sub g sol"
  note w = wellFormed_facts[OF wf]
  obtain r s' where r: "backtrack sub g = Some (Inr (r, s'))" "invariant sub g s'"
    "(r = [] \<and> blankStack s' = [] \<and> blanksInProcess s' \<noteq> [] \<and> searched sub g [])
        \<or> (r = grid s' \<and> blanksInProcess s' = [])"
    using backtrack_total[OF wf] by blast
  have eq: "r = []" "s' = s" using r(1) run by simp_all
  have "length (grid s') = length g"
    using invariant_square[OF r(2) w(1)] by (simp add: square_def)
  then have "grid s' \<noteq> []" using w(4) by auto
  then have "searched sub g []" using r(3) eq by auto
  then have "\<not> extends sol g" using sol unfolding searched_def by simp
  then show False using completionD(3)[OF sol] by simp
qed

text \<open>
  Claim C1.  On a well-formed grid, a non-empty grid returned by the solver has the shape
  of the input, holds a digit from 1 to \<open>N\<close> in every cell (no cell holds 0), agrees with
  the input on every cell the input has filled, and no two distinct cells of one row,
  column or subregion hold the same digit.
\<close>

theorem backtrack_sound:
  assumes "wellFormed sub g" and "backtrack sub g = Some (Inr (r, s))" and "r \<noteq> []"
  shows "square (length g) r \<and> filled r \<and> extends r g \<and> conflictFree sub r"
proof -
  obtain r' s' where r: "backtrack sub g = Some (Inr (r', s'))" "invariant sub g s'"
    "(r' = [] \<and> blankStack s' = [] \<and> blanksInProcess s' \<noteq> [] \<and> searched sub g [])
        \<or> (r' = grid s' \<and> blanksInProcess s' = [])"
    using backtrack_total[OF assms(1)] by blast
  have eq: "r' = r" "s' = s" using r(1) assms(2) by simp_all
  then have "r = grid s" "blanksInProcess s = []" using r(3) assms(3) by auto
  then have "completion sub g r"
    using full_stack_completion[OF assms(1), of s] r(2) eq by simp
  then show ?thesis by (simp add: completion_def)
qed

theorem backtrack_sound_witness:
  "wellFormed 2 searchGrid
   \<and> (\<exists>s. backtrack 2 searchGrid = Some (Inr (searchGridSolved, s)))
   \<and> searchGridSolved \<noteq> []
   \<and> square (length searchGrid) searchGridSolved \<and> filled searchGridSolved
   \<and> extends searchGridSolved searchGrid \<and> conflictFree 2 searchGridSolved"
proof -
  obtain s where run: "backtrack 2 searchGrid = Some (Inr (searchGridSolved, s))"
    using searchGrid_run by blast
  have ne: "searchGridSolved \<noteq> []" by (simp add: searchGridSolved_def)
  show ?thesis
    using backtrack_sound[OF wellFormed_examples(1) run ne] wellFormed_examples(1) run ne
    by blast
qed

text \<open>
  Claim C2.  On a well-formed grid with exactly one completion, the solver returns that
  completion: it neither reports "no solution" nor returns another grid.
\<close>

theorem backtrack_unique:
  assumes "wellFormed sub g" and "{sol'. completion sub g sol'} = {sol}"
  shows "\<exists>s. backtrack sub g = Some (Inr (sol, s))"
proof -
  have sol: "completion sub g sol" and uni: "\<And>sol'. completion sub g sol' \<Longrightarrow> sol' = sol"
    using assms(2) by auto
  obtain r s where r: "backtrack sub g = Some (Inr (r, s))" "invariant sub g s"
    "(r = [] \<and> blankStack s = [] \<and> blanksInProcess s \<noteq> [] \<and> searched sub g [])
        \<or> (r = grid s \<and> blanksInProcess s = [])"
    using backtrack_total[OF assms(1)] by blast
  from r(3) show ?thesis
  proof
    assume "r = [] \<and> blankStack s = [] \<and> blanksInProcess s \<noteq> [] \<and> searched sub g []"
    then have "\<not> extends sol g" using sol unfolding searched_def by simp
    then show ?thesis using completionD(3)[OF sol] by simp
  next
    assume "r = grid s \<and> blanksInProcess s = []"
    then have "completion sub g r" using full_stack_completion[OF assms(1) r(2)] by simp
    then show ?thesis using uni r(1) by blast
  qed
qed

lemma forcedFill_extends:
  assumes sol: "square n sol" "filled sol" "conflictFree sub sol" and pos: "0 < sub"
  shows "square n h \<Longrightarrow> \<forall>b \<in> set bs. inside n b \<Longrightarrow> extends sol h
     \<Longrightarrow> forcedFill sub h bs = Some h' \<Longrightarrow> extends sol h' \<and> square n h'"
proof (induction bs arbitrary: h)
  case Nil
  then show ?case by simp
next
  case (Cons b bs)
  obtain v where v: "opts sub h b = [v]" and rest: "forcedFill sub (put h b v) bs = Some h'"
    using Cons.prems(4) by (auto split: list.splits)
  have ib: "inside n b" using Cons.prems(2) by simp
  have len: "length h = n" using Cons.prems(1) by (simp add: square_def)
  have "cell sol b \<in> set (opts sub h b)"
    by (rule completion_legal[OF sol Cons.prems(3) len pos ib])
  then have "cell sol b = v" by (simp add: v)
  then have ex: "extends sol (put h b v)" by (rule extends_put[OF Cons.prems(1) ib Cons.prems(3)])
  show ?case
    by (rule Cons.IH[OF square_put[OF Cons.prems(1)] _ ex rest]) (use Cons.prems(2) in simp)
qed

lemma grid_eqI:
  assumes a: "square n a" and b: "square n b"
    and eq: "\<And>c. inside n c \<Longrightarrow> cell a c = cell b c"
  shows "a = b"
proof (rule nth_equalityI)
  show "length a = length b" using a b by (simp add: square_def)
next
  fix i assume i: "i < length a"
  then have ia: "i < n" using a by (simp add: square_def)
  have la: "length (a ! i) = n" "length (b ! i) = n"
    using a b ia by (simp_all add: square_def)
  show "a ! i = b ! i"
  proof (rule nth_equalityI)
    show "length (a ! i) = length (b ! i)" using la by simp
  next
    fix j assume "j < length (a ! i)"
    then have "inside n (int i, int j)" using ia la by (simp add: inside_def)
    then have "cell a (int i, int j) = cell b (int i, int j)" by (rule eq)
    then show "a ! i ! j = b ! i ! j" by (simp add: cell_def)
  qed
qed

lemma uniqueGrid_unique: "{sol'. completion 2 uniqueGrid sol'} = {uniqueGridSolved}"
proof (rule set_eqI)
  fix sol :: intgrid
  have a: "completion 2 uniqueGrid uniqueGridSolved" by code_simp
  have b: "sol = uniqueGridSolved" if c: "completion 2 uniqueGrid sol"
  proof -
    have l: "length uniqueGrid = 4" by (simp add: uniqueGrid_def)
    note cd = completionD[OF c, unfolded l]
    have sq: "square 4 uniqueGrid" by code_simp
    have ins: "\<forall>b \<in> set (blankSquares uniqueGrid). inside 4 b" by code_simp
    have ff: "forcedFill 2 uniqueGrid (blankSquares uniqueGrid) = Some uniqueGridSolved"
      by code_simp
    have ex: "extends sol uniqueGridSolved" and sq': "square 4 uniqueGridSolved"
      using forcedFill_extends[OF cd(1,2,4) _ sq ins cd(3) ff] by simp_all
    have nz: "\<forall>x \<in> set (coords 4). cell uniqueGridSolved x \<noteq> 0" by code_simp
    have l': "length uniqueGridSolved = 4" by (simp add: uniqueGridSolved_def)
    show ?thesis
    proof (rule grid_eqI[OF cd(1) sq'])
      fix x assume x: "inside 4 x"
      then have "x \<in> set (coords 4)" by (simp add: set_coords)
      then have "cell uniqueGridSolved x \<noteq> 0" using nz by blast
      then show "cell sol x = cell uniqueGridSolved x" by (rule extendsD[OF ex l' x])
    qed
  qed
  show "sol \<in> {sol'. completion 2 uniqueGrid sol'} \<longleftrightarrow> sol \<in> {uniqueGridSolved}"
    using a b by auto
qed

theorem backtrack_unique_witness:
  "wellFormed 2 uniqueGrid \<and> {sol'. completion 2 uniqueGrid sol'} = {uniqueGridSolved}
   \<and> (\<exists>s. backtrack 2 uniqueGrid = Some (Inr (uniqueGridSolved, s)))"
  using backtrack_unique[OF wellFormed_examples(4) uniqueGrid_unique]
    wellFormed_examples(4) uniqueGrid_unique by blast

text \<open>
  Claim C3.  On a well-formed grid without completion, the solver returns, with the
  stack empty and blanks still in the pool, the empty vector, which is no grid of the
  shape of the input.
\<close>

theorem backtrack_unsolvable:
  assumes "wellFormed sub g" and "\<not> (\<exists>sol. completion sub g sol)"
  shows "\<exists>s. backtrack sub g = Some (Inr ([], s)) \<and> blankStack s = []
     \<and> blanksInProcess s \<noteq> [] \<and> \<not> square (length g) []"
proof -
  note w = wellFormed_facts[OF assms(1)]
  obtain r s where r: "backtrack sub g = Some (Inr (r, s))" "invariant sub g s"
    "(r = [] \<and> blankStack s = [] \<and> blanksInProcess s \<noteq> [] \<and> searched sub g [])
        \<or> (r = grid s \<and> blanksInProcess s = [])"
    using backtrack_total[OF assms(1)] by blast
  have "\<not> (r = grid s \<and> blanksInProcess s = [])"
    using full_stack_completion[OF assms(1) r(2)] assms(2) by auto
  then have "r = [] \<and> blankStack s = [] \<and> blanksInProcess s \<noteq> []" using r(3) by blast
  moreover have "\<not> square (length g) []" using w(4) by (simp add: square_def)
  ultimately show ?thesis using r(1) by blast
qed

theorem backtrack_unsolvable_witness:
  "wellFormed 2 unsolvableGrid \<and> \<not> (\<exists>sol. completion 2 unsolvableGrid sol)
   \<and> (\<exists>s. backtrack 2 unsolvableGrid = Some (Inr ([], s)) \<and> blankStack s = []
        \<and> blanksInProcess s \<noteq> [] \<and> \<not> square (length unsolvableGrid) [])"
proof -
  obtain s where run: "backtrack 2 unsolvableGrid = Some (Inr ([], s))"
    using unsolvableGrid_run by blast
  have none: "\<not> (\<exists>sol. completion 2 unsolvableGrid sol)"
    using empty_result_no_completion[OF wellFormed_examples(2) run] by blast
  show ?thesis
    using backtrack_unsolvable[OF wellFormed_examples(2) none] wellFormed_examples(2) none
    by blast
qed

text \<open>
  Claim C4.  On a well-formed grid the solver terminates: the loop of push, increment and
  pop steps ends after finitely many passes, and the run returns the empty vector or a
  completion of the input.
\<close>

theorem backtrack_terminates:
  assumes "wellFormed sub g"
  shows "\<exists>r s. backtrack sub g = Some (Inr (r, s)) \<and> (r = [] \<or> completion sub g r)"
proof -
  obtain r s where r: "backtrack sub g = Some (Inr (r, s))" "invariant sub g s"
    "(r = [] \<and> blankStack s = [] \<and> blanksInProcess s \<noteq> [] \<and> searched sub g [])
        \<or> (r = grid s \<and> blanksInProcess s = [])"
    using backtrack_total[OF assms] by blast
  have "r = [] \<or> completion sub g r"
    using r(3) full_stack_completion[OF assms r(2)] by auto
  then show ?thesis using r(1) by blast
qed

theorem backtrack_terminates_witness:
  "wellFormed 2 unsolvableGrid
   \<and> (\<exists>r s. backtrack 2 unsolvableGrid = Some (Inr (r, s))
        \<and> (r = [] \<or> completion 2 unsolvableGrid r))"
  using backtrack_terminates[OF wellFormed_examples(2)] wellFormed_examples(2) by blast

text \<open>
  Claim C10.  On a well-formed grid, when the solver returns the empty vector, the
  caller's grid is the input grid again: every cell is as it was at the start.
\<close>

theorem backtrack_restores:
  assumes "wellFormed sub g" and "backtrack sub g = Some (Inr ([], s))"
  shows "grid s = g"
proof -
  note w = wellFormed_facts[OF assms(1)]
  obtain r s' where r: "backtrack sub g = Some (Inr (r, s'))" "invariant sub g s'"
    "(r = [] \<and> blankStack s' = [] \<and> blanksInProcess s' \<noteq> [] \<and> searched sub g [])
        \<or> (r = grid s' \<and> blanksInProcess s' = [])"
    using backtrack_total[OF assms(1)] by blast
  have eq: "r = []" "s' = s" using r(1) assms(2) by simp_all
  have "length (grid s') = length g"
    using invariant_square[OF r(2) w(1)] by (simp add: square_def)
  then have "grid s' \<noteq> []" using w(4) by auto
  then have "blankStack s = []" using r(3) eq by auto
  then show ?thesis using invariantD(1)[OF r(2)] eq by simp
qed

theorem backtrack_restores_witness:
  "wellFormed 2 unsolvableGrid
   \<and> (\<exists>s. backtrack 2 unsolvableGrid = Some (Inr ([], s)) \<and> grid s = unsolvableGrid)"
proof -
  obtain s where run: "backtrack 2 unsolvableGrid = Some (Inr ([], s))"
    using unsolvableGrid_run by blast
  show ?thesis
    using backtrack_restores[OF wellFormed_examples(2) run] wellFormed_examples(2) run
    by blast
qed

section \<open>Conservation of the blanks\<close>

lemma minScan_pos:
  "minScan g occ sub rest iter th cm = (cm', th') \<Longrightarrow> cm < iter
     \<Longrightarrow> cm' < iter + length rest"
proof (induction rest arbitrary: iter th cm)
  case Nil
  then show ?case by simp
next
  case (Cons b rest)
  show ?case
  proof (cases "th = 0")
    case True
    then show ?thesis using Cons.prems by simp
  next
    case False
    let ?sd = "countSuccessful b occ sub th (map int [1..<length g + 1]) 0"
    show ?thesis
    proof (cases "?sd < th")
      case True
      then have "minScan g occ sub rest (iter + 1) ?sd iter = (cm', th')"
        using Cons.prems(1) False by (simp only: minScan.simps Let_def if_False if_True)
      then have "cm' < (iter + 1) + length rest" by (rule Cons.IH) simp
      then show ?thesis by simp
    next
      case nlt: False
      then have "minScan g occ sub rest (iter + 1) th cm = (cm', th')"
        using Cons.prems(1) False by (simp only: minScan.simps Let_def if_False if_True)
      then have "cm' < (iter + 1) + length rest" by (rule Cons.IH) (use Cons.prems(2) in simp)
      then show ?thesis by simp
    qed
  qed
qed

lemma minBlank_pos:
  assumes "blanks \<noteq> []" "minBlank g blanks occ sub = (p, ne, g')"
  shows "p < length blanks"
proof -
  obtain b rest where bl: "blanks = b # rest" using assms(1) by (cases blanks) auto
  obtain opts' g1 where o: "options b g occ sub = (opts', g1)" by (cases "options b g occ sub")
  obtain cm th where m: "minScan g1 occ sub rest (Suc 0) (int (length opts')) 0 = (cm, th)"
    by (cases "minScan g1 occ sub rest (Suc 0) (int (length opts')) 0")
  have "p = cm" using assms(2) by (simp add: minBlank_def bl o m)
  moreover have "cm < Suc 0 + length rest" by (rule minScan_pos[OF m]) simp
  ultimately show ?thesis by (simp add: bl)
qed

lemma push_conserves:
  assumes "push sub s = Inr (pushed, s')"
  shows "length (blankStack s') + length (blanksInProcess s')
     = length (blankStack s) + length (blanksInProcess s)"
proof -
  have ne: "blanksInProcess s \<noteq> []" using assms by (auto simp: push_def split: if_splits)
  obtain p flag g1 where m:
    "minBlank (grid s) (blanksInProcess s) (recordsEachDigit s) sub = (p, flag, g1)"
    by (cases "minBlank (grid s) (blanksInProcess s) (recordsEachDigit s) sub")
  have p: "p < length (blanksInProcess s)" by (rule minBlank_pos[OF ne m])
  obtain chs g2 where o:
    "options (blanksInProcess s ! p) g1 (recordsEachDigit s) sub = (chs, g2)"
    by (cases "options (blanksInProcess s ! p) g1 (recordsEachDigit s) sub")
  show ?thesis
    using assms ne p by (auto simp: push_def m o Let_def split: if_splits)
qed

lemma pop_conserves:
  assumes "pop s = Inr s'"
  shows "length (blankStack s') + length (blanksInProcess s')
     = length (blankStack s) + length (blanksInProcess s)"
  using assms by (auto simp: pop_def Let_def split: list.splits if_splits)

lemma increment_conserves:
  assumes "increment s = Inr s'"
  shows "length (blankStack s') + length (blanksInProcess s')
     = length (blankStack s) + length (blanksInProcess s)"
  using assms by (auto simp: increment_def Let_def split: list.splits if_splits)

text \<open>
  Claim C8.  At every point of every run of the solver, on any grid, the size of the
  stack plus the size of the blank pool is the number of blanks of the input grid: after
  the construction, after every push (also one that fails), after every pop and after
  every increment.
\<close>

theorem conservation:
  assumes "visits sub g pt s"
  shows "length (blankStack s) + length (blanksInProcess s) = length (blankSquares g)"
  using assms
proof (induction rule: visits.induct)
  case constructed
  show ?case by (simp add: initial_def)
next
  case (first_push pushed s')
  then show ?case using push_conserves[of sub "initial g" pushed s'] by (simp add: initial_def)
qed (use push_conserves pop_conserves increment_conserves in \<open>metis+\<close>)

lemma run_on_unsolvableGrid:
  "visits 2 unsolvableGrid Head firstPushed"
  "visits 2 unsolvableGrid Head secondPushed"
  "visits 2 unsolvableGrid FailedPushInLoop thirdPushFailed"
  "visits 2 unsolvableGrid Head thirdPopped"
proof -
  have sumI: "\<And>x :: error + bool \<times> solver. \<not> isl x \<Longrightarrow> x = Inr (fst (projr x), snd (projr x))"
    by (case_tac x) auto
  have b0: "blanksInProcess (initial unsolvableGrid) \<noteq> []" by code_simp
  have "\<not> isl (push 2 (initial unsolvableGrid))" by code_simp
  then have p1: "push 2 (initial unsolvableGrid)
      = Inr (fst (projr (push 2 (initial unsolvableGrid))), firstPushed)"
    unfolding firstPushed_def by (rule sumI)
  show v1: "visits 2 unsolvableGrid Head firstPushed"
    by (rule visits.first_push[OF b0 p1])
  have c1: "continues unsolvableGrid firstPushed" by code_simp
  have f1: "\<not> (revisited (hd (blankStack firstPushed)) \<and> belowLast (hd (blankStack firstPushed)))"
    "\<not> revisited (hd (blankStack firstPushed))" by code_simp+
  have "\<not> isl (push 2 firstPushed)" "fst (projr (push 2 firstPushed))" by code_simp+
  then have p2: "push 2 firstPushed = Inr (True, secondPushed)"
    unfolding secondPushed_def using sumI[of "push 2 firstPushed"] by simp
  show v2: "visits 2 unsolvableGrid Head secondPushed"
    by (rule visits.loop_pushed[OF v1 c1 f1 p2])
  have c2: "continues unsolvableGrid secondPushed" by code_simp
  have f2: "\<not> (revisited (hd (blankStack secondPushed)) \<and> belowLast (hd (blankStack secondPushed)))"
    "\<not> revisited (hd (blankStack secondPushed))" by code_simp+
  have "\<not> isl (push 2 secondPushed)" "\<not> fst (projr (push 2 secondPushed))" by code_simp+
  then have p3: "push 2 secondPushed = Inr (False, thirdPushFailed)"
    unfolding thirdPushFailed_def using sumI[of "push 2 secondPushed"] by simp
  show v3: "visits 2 unsolvableGrid FailedPushInLoop thirdPushFailed"
    by (rule visits.loop_push_failed[OF v2 c2 f2 p3])
  have "\<not> isl (pop thirdPushFailed)" by code_simp
  then have p4: "pop thirdPushFailed = Inr thirdPopped"
    unfolding thirdPopped_def by (cases "pop thirdPushFailed") auto
  show "visits 2 unsolvableGrid Head thirdPopped"
    by (rule visits.loop_popped[OF v3 p4])
qed

theorem conservation_witness:
  "visits 2 unsolvableGrid Head thirdPopped
   \<and> length (blankStack thirdPopped) + length (blanksInProcess thirdPopped)
       = length (blankSquares unsolvableGrid)
   \<and> length (blankStack thirdPopped) = 1"
proof -
  have "length (blankStack thirdPopped) = 1" by code_simp
  then show ?thesis
    using conservation[OF run_on_unsolvableGrid(4)] run_on_unsolvableGrid(4) by simp
qed

section \<open>The invariant at every point of a run\<close>

lemma push_result:
  assumes inv: "invariant sub g s" and sq: "square n g" and p: "push sub s = Inr (pushed, s')"
  shows "invariant sub g s'"
    and "pushed \<Longrightarrow> blankStack s' \<noteq> []"
    and "\<not> pushed \<Longrightarrow> s' = s \<and> (\<exists>b \<in> set (blanksInProcess s). opts sub (grid s) b = [])"
proof -
  have ne: "blanksInProcess s \<noteq> []" using p by (auto simp: push_def split: if_splits)
  have "invariant sub g s' \<and> (pushed \<longrightarrow> blankStack s' \<noteq> [])
      \<and> (\<not> pushed \<longrightarrow> s' = s \<and> (\<exists>b \<in> set (blanksInProcess s). opts sub (grid s) b = []))"
  proof (cases "\<forall>b \<in> set (blanksInProcess s). opts sub (grid s) b \<noteq> []")
    case True
    then show ?thesis using push_ok[OF inv sq ne True] p by auto
  next
    case False
    then have d: "\<exists>b \<in> set (blanksInProcess s). opts sub (grid s) b = []" by blast
    then show ?thesis using push_fail[OF inv sq ne d] p inv by auto
  qed
  then show "invariant sub g s'" "pushed \<Longrightarrow> blankStack s' \<noteq> []"
    "\<not> pushed \<Longrightarrow> s' = s \<and> (\<exists>b \<in> set (blanksInProcess s). opts sub (grid s) b = [])"
    by blast+
qed

lemma push_returns:
  assumes inv: "invariant sub g s" and sq: "square n g" and ne: "blanksInProcess s \<noteq> []"
  shows "\<exists>pushed s'. push sub s = Inr (pushed, s')"
proof (cases "\<forall>b \<in> set (blanksInProcess s). opts sub (grid s) b \<noteq> []")
  case True
  then show ?thesis using push_ok[OF inv sq ne True] by blast
next
  case False
  then have d: "\<exists>b \<in> set (blanksInProcess s). opts sub (grid s) b = []" by blast
  then show ?thesis using push_fail[OF inv sq ne d] by blast
qed

lemma exhausted_top:
  assumes inv: "invariant sub g s" and sq: "square n g" and st: "blankStack s = f # rest"
    and nb: "\<not> belowLast f"
  shows "index f + 1 = int (length (choices f))"
  using top_frame_facts(9,10)[OF inv sq st] nb by (simp add: belowLast_def)

lemma visits_pointInvariant:
  assumes sq: "square n g" and v: "visits sub g pt s"
  shows "pointInvariant sub g pt s"
  using v
proof (induction rule: visits.induct)
  case constructed
  show ?case by (simp add: pointInvariant_def invariant_initial[OF sq])
next
  case (first_push pushed s')
  show ?case
    using push_result(1)[OF invariant_initial[OF sq] sq first_push(2)]
    by (simp add: pointInvariant_def)
next
  case (loop_increment s s')
  have inv: "invariant sub g s" using loop_increment.IH by (simp add: pointInvariant_def)
  obtain f rest where st: "blankStack s = f # rest"
    using loop_increment.hyps(2) by (cases "blankStack s") (auto simp: continues_def)
  have bl: "belowLast f" using loop_increment.hyps(3) st by simp
  obtain s1 where s1: "increment s = Inr s1" "invariant sub g s1"
    "blankStack s1 = f\<lparr>index := index f + 1\<rparr> # rest"
    using increment_ok[OF inv sq st bl] by blast
  have eq: "s' = s1" using s1(1) loop_increment.hyps(4) by simp
  have "2 \<le> length (choices f)"
    using bl top_frame_facts(9)[OF inv sq st] by (simp add: belowLast_def)
  then show ?case
    using s1(2,3) loop_increment.hyps(2) st by (simp add: pointInvariant_def eq continues_def)
next
  case (increment_pushed s s')
  have inv: "invariant sub g s" using increment_pushed.IH by (simp add: pointInvariant_def)
  show ?case
    using push_result(1,2)[OF inv sq increment_pushed.hyps(2)] by (simp add: pointInvariant_def)
next
  case (increment_push_failed s s')
  have inv: "invariant sub g s" and ne: "blankStack s \<noteq> []"
    and two: "2 \<le> length (choices (hd (blankStack s)))"
    using increment_push_failed.IH by (simp_all add: pointInvariant_def)
  obtain f rest where st: "blankStack s = f # rest" using ne by (cases "blankStack s") auto
  have "\<forall>b \<in> set (blanksInProcess s). opts sub (grid s) b \<noteq> []"
    by (rule live_after_top[OF inv sq st]) (use two st in simp)
  then show ?case
    using push_result(3)[OF inv sq increment_push_failed.hyps(2)] by blast
next
  case (increment_popped s s')
  then show ?case by (simp add: pointInvariant_def)
next
  case (restart s pushed s')
  then show ?case by (simp add: pointInvariant_def)
next
  case (no_restart s)
  then show ?case by (simp add: pointInvariant_def)
next
  case (loop_pushed s s')
  have inv: "invariant sub g s" using loop_pushed.IH by (simp add: pointInvariant_def)
  show ?case
    using push_result(1)[OF inv sq loop_pushed.hyps(5)] by (simp add: pointInvariant_def)
next
  case (loop_push_failed s s')
  have inv: "invariant sub g s" using loop_push_failed.IH by (simp add: pointInvariant_def)
  obtain f rest where st: "blankStack s = f # rest"
    using loop_push_failed.hyps(2) by (cases "blankStack s") (auto simp: continues_def)
  have r: "s' = s" "\<exists>b \<in> set (blanksInProcess s). opts sub (grid s) b = []"
    using push_result(3)[OF inv sq loop_push_failed.hyps(5)] by auto
  show ?case
    using inv dead_top_single[OF inv sq st r(2)] st by (simp add: pointInvariant_def r(1))
next
  case (loop_popped s s')
  have inv: "invariant sub g s" and ne: "blankStack s \<noteq> []"
    and atlast: "index (hd (blankStack s)) + 1 = int (length (choices (hd (blankStack s))))"
    using loop_popped.IH by (simp_all add: pointInvariant_def)
  obtain f rest where st: "blankStack s = f # rest" using ne by (cases "blankStack s") auto
  show ?case
    using pop_ok[OF inv sq st] atlast st loop_popped.hyps(2) by (auto simp: pointInvariant_def)
next
  case (loop_pop s s')
  have inv: "invariant sub g s" using loop_pop.IH by (simp add: pointInvariant_def)
  obtain f rest where st: "blankStack s = f # rest"
    using loop_pop.hyps(2) by (cases "blankStack s") (auto simp: continues_def)
  have "\<not> belowLast f" using loop_pop.hyps(3,4) st by simp
  then have atlast: "index f + 1 = int (length (choices f))"
    by (rule exhausted_top[OF inv sq st])
  show ?case
    using pop_ok[OF inv sq st atlast] loop_pop.hyps(5) by (auto simp: pointInvariant_def)
qed

text \<open>The relation follows the loop of the model: from a state at the head of the loop,
  a pass of \<open>iteration\<close> leads to a state at the head of the loop.\<close>

lemma visits_iteration:
  assumes v: "visits sub g Head s" and c: "continues g s" and it: "iteration sub s = Inr s'"
  shows "visits sub g Head s'"
proof -
  let ?t = "hd (blankStack s)"
  show ?thesis
  proof (cases "revisited ?t \<and> belowLast ?t")
    case True
    then have ip: "incrementPush sub s = Inr s'" using it by (simp add: iteration_def)
    then obtain s1 where s1: "increment s = Inr s1"
      by (auto simp: incrementPush_def split: sum.splits)
    have v1: "visits sub g AfterIncrement s1" by (rule visits.loop_increment[OF v c True s1])
    obtain s2 where s2: "tryToPush sub s1 = Inr s2"
      using ip s1 by (auto simp: incrementPush_def split: sum.splits)
    have v2: "visits sub g AfterTryToPush s2"
    proof -
      obtain pushed s1' where p: "push sub s1 = Inr (pushed, s1')"
        using s2 by (auto simp: tryToPush_def split: sum.splits)
      show ?thesis
      proof (cases pushed)
        case True
        then show ?thesis
          using visits.increment_pushed[OF v1, of s1'] p s2 by (simp add: tryToPush_def)
      next
        case False
        then have "visits sub g FailedPushInIncrement s1'"
          using visits.increment_push_failed[OF v1, of s1'] p by simp
        then show ?thesis
          using visits.increment_popped[of sub g s1' s2] p s2 False by (simp add: tryToPush_def)
      qed
    qed
    show ?thesis
    proof (cases "blankStack s2 = [] \<and> blanksInProcess s2 \<noteq> []")
      case True
      then obtain pushed where "push sub s2 = Inr (pushed, s')"
        using ip s1 s2 by (auto simp: incrementPush_def split: sum.splits)
      then show ?thesis by (rule visits.restart[OF v2 True])
    next
      case False
      then have "s' = s2" using ip s1 s2 by (auto simp: incrementPush_def)
      then show ?thesis using visits.no_restart[OF v2 False] by simp
    qed
  next
    case nA: False
    show ?thesis
    proof (cases "revisited ?t")
      case True
      then have "pop s = Inr s'" using it nA by (simp add: iteration_def)
      then show ?thesis using visits.loop_pop[OF v c nA _, of s'] True by simp
    next
      case False
      then have tp: "tryToPush sub s = Inr s'" using it nA by (simp add: iteration_def)
      then obtain pushed s1 where p: "push sub s = Inr (pushed, s1)"
        by (auto simp: tryToPush_def split: sum.splits)
      show ?thesis
      proof (cases pushed)
        case True
        then show ?thesis
          using visits.loop_pushed[OF v c nA False, of s1] p tp by (simp add: tryToPush_def)
      next
        case nf: False
        then have "visits sub g FailedPushInLoop s1"
          using visits.loop_push_failed[OF v c nA False, of s1] p by simp
        then show ?thesis
          using visits.loop_popped[of sub g s1 s'] p tp nf by (simp add: tryToPush_def)
      qed
    qed
  qed
qed

text \<open>
  Claim C7.  On an \<open>N \<times> N\<close> grid, the occurrence record and the grid are coherent after
  the construction of the record and after every push, pop and increment of a run: under
  every digit the record holds exactly the coordinates at which the grid holds the digit.
\<close>

theorem coherence_invariant:
  assumes "square (length g) g" and "visits sub g pt s"
  shows "coherent (grid s) (recordsEachDigit s)"
proof -
  have "invariant sub g s"
    using visits_pointInvariant[OF assms] unfolding pointInvariant_def by blast
  then show ?thesis by (rule invariantD(2))
qed

theorem coherence_invariant_witness:
  "square (length unsolvableGrid) unsolvableGrid
   \<and> visits 2 unsolvableGrid Head thirdPopped
   \<and> coherent (grid thirdPopped) (recordsEachDigit thirdPopped)"
proof -
  have sq: "square (length unsolvableGrid) unsolvableGrid" by code_simp
  show ?thesis
    using coherence_invariant[OF sq run_on_unsolvableGrid(4)] sq run_on_unsolvableGrid(4)
    by simp
qed

section \<open>The validator and the error branches\<close>

lemma smod_nonneg: "0 \<le> a \<Longrightarrow> 0 < b \<Longrightarrow> a smod b = a mod (b::int)"
  by (simp add: signed_modulo_int_def sgn_if)

lemma int_upt_member: "0 \<le> i \<Longrightarrow> i < int n \<Longrightarrow> i \<in> set (map int [0..<n])"
proof -
  assume "0 \<le> i" "i < int n"
  then have "nat i \<in> set [0..<n]" "int (nat i) = i" by auto
  then show ?thesis by (metis image_eqI set_map)
qed

lemma checkLegal_at:
  assumes "checkLegal g sub" "inside (length g) c"
  shows "checkLegalAt (fst c) (snd c) g sub"
proof -
  have "fst c \<in> set (map int [0..<length g])" "snd c \<in> set (map int [0..<length g])"
    using assms(2) int_upt_member[of "fst c" "length g"] int_upt_member[of "snd c" "length g"]
    unfolding inside_def by blast+
  then show ?thesis
    using assms(1) unfolding checkLegal_def list_all_iff by blast
qed

lemma box_range:
  assumes "0 < sub" "0 \<le> i" "0 \<le> I" "i div sub = I div sub"
  shows "I \<in> set [i - i smod sub..i - i smod sub + sub - 1]"
proof -
  have s: "i - i smod sub = sub * (i div sub)"
    using assms(1,2) by (simp add: smod_nonneg minus_mod_eq_mult_div)
  have m: "0 \<le> I mod sub" "I mod sub < sub" using assms(1) by simp_all
  have e: "sub * (I div sub) + I mod sub = I" by simp
  have "sub * (I div sub) \<le> I" "I < sub * (I div sub) + sub"
    using m e by linarith+
  then show ?thesis unfolding s using assms(4) by simp
qed

lemma checkLegal_conflictFree:
  assumes pos: "0 < sub" and cl: "checkLegal g sub"
  shows "conflictFree sub g"
proof (rule conflictFreeI[OF refl])
  fix c c' :: coord
  assume ic: "inside (length g) c" and ic': "inside (length g) c'" and ne: "c \<noteq> c'"
    and nz: "cell g c \<noteq> 0" and su: "sharesUnit sub c c'"
  obtain i j where c: "c = (i, j)" by (cases c)
  obtain I J where c': "c' = (I, J)" by (cases c')
  have cp: "checkPair (i, j) g"
    using ic by (simp add: c checkPair_def checkIndex_def inside_def)
  have la: "checkLegalAt i j g sub" using checkLegal_at[OF cl ic] by (simp add: c)
  have "0 \<le> I \<and> I < int (length g) \<and> 0 \<le> J \<and> J < int (length g)"
    using ic' by (simp add: c' inside_def)
  then have Iin: "I \<in> set (map int [0..<length g])" and Jin: "J \<in> set (map int [0..<length g])"
    using int_upt_member[of I "length g"] int_upt_member[of J "length g"] by blast+
  have nzc: "cell g (i, j) \<noteq> 0" using nz by (simp add: c)
  have ch: "checkHorizontal i j g" and cv: "checkVertical i j g" and cs: "checkSubgrid i j g sub"
    using la by (simp_all add: checkLegalAt_def)
  have "\<forall>J' \<in> set (map int [0..<length g]). \<not> (j \<noteq> J' \<and> cell g (i, J') = cell g (i, j))"
    using ch cp nzc unfolding checkHorizontal_def list_all_iff by simp
  then have h: "\<And>J'. J' \<in> set (map int [0..<length g]) \<Longrightarrow> j \<noteq> J' \<Longrightarrow> cell g (i, J') \<noteq> cell g (i, j)"
    by blast
  have "\<forall>I' \<in> set (map int [0..<length g]). \<not> (i \<noteq> I' \<and> cell g (i, j) = cell g (I', j))"
    using cv cp nzc unfolding checkVertical_def list_all_iff by simp
  then have v: "\<And>I'. I' \<in> set (map int [0..<length g]) \<Longrightarrow> i \<noteq> I' \<Longrightarrow> cell g (I', j) \<noteq> cell g (i, j)"
    by metis
  have "\<forall>I' \<in> set [i - i smod sub..i - i smod sub + sub - 1].
      \<forall>J' \<in> set [j - j smod sub..j - j smod sub + sub - 1].
        \<not> (i \<noteq> I' \<and> j \<noteq> J' \<and> cell g (i, j) = cell g (I', J'))"
    using cs cp nzc unfolding checkSubgrid_def list_all_iff Let_def by simp
  then have b: "\<And>I' J'. I' \<in> set [i - i smod sub..i - i smod sub + sub - 1]
      \<Longrightarrow> J' \<in> set [j - j smod sub..j - j smod sub + sub - 1]
      \<Longrightarrow> i \<noteq> I' \<Longrightarrow> j \<noteq> J' \<Longrightarrow> cell g (I', J') \<noteq> cell g (i, j)"
    by metis
  show "cell g c' \<noteq> cell g c"
  proof (cases "i = I")
    case True
    then have "j \<noteq> J" using ne by (simp add: c c')
    then show ?thesis using h[OF Jin] True by (simp add: c c')
  next
    case ni: False
    show ?thesis
    proof (cases "j = J")
      case True
      then show ?thesis using v[OF Iin ni] by (simp add: c c')
    next
      case nj: False
      have box: "i div sub = I div sub" "j div sub = J div sub"
        using su ni nj by (auto simp: sharesUnit_def c c')
      have "I \<in> set [i - i smod sub..i - i smod sub + sub - 1]"
        by (rule box_range[OF pos _ _ box(1)]) (use ic ic' in \<open>simp_all add: c c' inside_def\<close>)
      moreover have "J \<in> set [j - j smod sub..j - j smod sub + sub - 1]"
        by (rule box_range[OF pos _ _ box(2)]) (use ic ic' in \<open>simp_all add: c c' inside_def\<close>)
      ultimately show ?thesis using b ni nj by (simp add: c c')
    qed
  qed
qed

lemma checkUserGrid_wellFormed:
  assumes pos: "0 < sub" and ck: "checkUserGrid g (sub * sub) sub"
  shows "wellFormed sub g"
proof -
  have cf: "checkFormat g (sub * sub)" and cl: "checkLegal g sub"
    using ck by (simp_all add: checkUserGrid_def)
  have l: "int (length g) = sub * sub" using cf by (simp add: checkFormat_def split: if_splits)
  have ra: "\<forall>row \<in> set g. checkRow row (int (length g))"
    using cf l unfolding checkFormat_def list_all_iff by simp
  have rows: "\<forall>row \<in> set g. length row = length g \<and> (\<forall>v \<in> set row. 0 \<le> v \<and> v \<le> int (length g))"
  proof
    fix row assume "row \<in> set g"
    then have cr: "checkRow row (int (length g))" using ra by blast
    then have a: "length row = length g"
      unfolding checkRow_def by (simp split: if_splits)
    have "\<forall>v \<in> set row. \<not> (v < 0 \<or> v > int (length g))"
      using cr a unfolding checkRow_def list_all_iff by simp
    then have "\<forall>v \<in> set row. 0 \<le> v \<and> v \<le> int (length g)"
      using not_less by blast
    then show "length row = length g \<and> (\<forall>v \<in> set row. 0 \<le> v \<and> v \<le> int (length g))"
      using a by blast
  qed
  show ?thesis
    unfolding wellFormed_def using pos l rows checkLegal_conflictFree[OF pos cl] by blast
qed

text \<open>
  Claim C9.  On a grid that the validator accepts for a grid size that is the square of
  the subregion size, a run of the diagnostic solver returns without throwing, and at no
  point of the run does the next operation throw: pop is not called on an empty stack,
  pop and increment find the coordinate they erase, increment is not applied at the last
  choice, push is not called on an empty pool.  A push that fails in the loop leaves a top
  frame whose cursor is on its last choice, and no push fails after an increment.
\<close>

theorem no_internal_error:
  assumes "0 < sub" and "checkUserGrid g (sub * sub) sub"
  shows "(\<exists>r s. backtrack sub g = Some (Inr (r, s)))
     \<and> (\<forall>pt s e. visits sub g pt s \<longrightarrow> \<not> raises sub g pt s e)
     \<and> (\<forall>s. visits sub g FailedPushInLoop s \<longrightarrow>
           blankStack s \<noteq> []
           \<and> index (hd (blankStack s)) + 1 = int (length (choices (hd (blankStack s)))))
     \<and> (\<forall>s. \<not> visits sub g FailedPushInIncrement s)"
proof -
  have wf: "wellFormed sub g" by (rule checkUserGrid_wellFormed[OF assms])
  note w = wellFormed_facts[OF wf]
  have a: "\<exists>r s. backtrack sub g = Some (Inr (r, s))" using backtrack_total[OF wf] by blast
  have pi: "\<And>pt s. visits sub g pt s \<Longrightarrow> pointInvariant sub g pt s"
    by (rule visits_pointInvariant[OF w(1)])
  have b: "\<not> raises sub g pt s e" if v: "visits sub g pt s" for pt s e
  proof -
    have P: "pointInvariant sub g pt s" by (rule pi[OF v])
    then have inv: "invariant sub g s" by (simp add: pointInvariant_def)
    have pushes: "blanksInProcess s \<noteq> [] \<Longrightarrow> push sub s \<noteq> Inl e"
      using push_returns[OF inv w(1)] by auto
    show ?thesis
    proof (cases pt)
      case Constructed
      then show ?thesis using pushes by (auto simp: raises_def)
    next
      case Head
      show ?thesis
      proof (cases "continues g s")
        case False
        then show ?thesis by (simp add: raises_def Head)
      next
        case True
        then obtain f rest where st: "blankStack s = f # rest"
          by (cases "blankStack s") (auto simp: continues_def)
        have ne: "blanksInProcess s \<noteq> []"
          using blanks_nonempty[OF inv] True by (simp add: continues_def)
        have i: "belowLast f \<Longrightarrow> increment s \<noteq> Inl e"
          using increment_ok[OF inv w(1) st] by auto
        have p: "\<not> belowLast f \<Longrightarrow> pop s \<noteq> Inl e"
          using pop_ok[OF inv w(1) st exhausted_top[OF inv w(1) st]] by auto
        show ?thesis using i p pushes[OF ne] st by (auto simp: raises_def Head)
      qed
    next
      case AfterIncrement
      then have "length (blankStack s) \<noteq> length (blankSquares g)"
        using P by (simp add: pointInvariant_def)
      then have "blanksInProcess s \<noteq> []" by (rule blanks_nonempty[OF inv])
      then show ?thesis using pushes by (simp add: raises_def AfterIncrement)
    next
      case FailedPushInIncrement
      then show ?thesis using P by (simp add: pointInvariant_def)
    next
      case AfterTryToPush
      then show ?thesis using P by (simp add: pointInvariant_def raises_def)
    next
      case FailedPushInLoop
      then have ne: "blankStack s \<noteq> []"
        and atlast: "index (hd (blankStack s)) + 1 = int (length (choices (hd (blankStack s))))"
        using P by (simp_all add: pointInvariant_def)
      obtain f rest where st: "blankStack s = f # rest" using ne by (cases "blankStack s") auto
      show ?thesis
        using pop_ok[OF inv w(1) st] atlast st by (auto simp: raises_def FailedPushInLoop)
    qed
  qed
  have c: "blankStack s \<noteq> []
      \<and> index (hd (blankStack s)) + 1 = int (length (choices (hd (blankStack s))))"
    if "visits sub g FailedPushInLoop s" for s
    using pi[OF that] by (simp add: pointInvariant_def)
  have d: "\<not> visits sub g FailedPushInIncrement s" for s
    using pi[of FailedPushInIncrement s] by (auto simp: pointInvariant_def)
  show ?thesis using a b c d by blast
qed

theorem no_internal_error_witness:
  "(0::int) < 2 \<and> checkUserGrid unsolvableGrid (2 * 2) 2
   \<and> (\<exists>r s. backtrack 2 unsolvableGrid = Some (Inr (r, s)))
   \<and> visits 2 unsolvableGrid FailedPushInLoop thirdPushFailed
   \<and> \<not> raises 2 unsolvableGrid FailedPushInLoop thirdPushFailed PopNotRecorded
   \<and> index (hd (blankStack thirdPushFailed)) + 1
       = int (length (choices (hd (blankStack thirdPushFailed))))"
proof -
  have p: "(0::int) < 2" by simp
  have ck: "checkUserGrid unsolvableGrid (2 * 2) 2" by code_simp
  show ?thesis
    using no_internal_error[OF p ck] p ck run_on_unsolvableGrid(3) by blast
qed

end
